theory Spec2Isabelle
  imports Main "HOL-Library.Sublist"
begin

section \<open>Step states and their precedence (cache.go, lines 100-133)\<close>

text \<open>
  \<^verbatim>\<open>type State string\<close> with eight named constants. The constants are the values
  the providers produce; they are modelled as an enumeration.
\<close>

datatype State = Unknown | Pending | Running | Passed | Failed | Canceled | Manual | Skipped

definition IsActive :: "State \<Rightarrow> bool" where
  "IsActive s = (s = Pending \<or> s = Running)"

text \<open>The table \<^verbatim>\<open>statePrecedence\<close>, entry by entry.\<close>

fun statePrecedence :: "State \<Rightarrow> int" where
  "statePrecedence Unknown = 80"
| "statePrecedence Running = 70"
| "statePrecedence Pending = 60"
| "statePrecedence Canceled = 50"
| "statePrecedence Failed = 40"
| "statePrecedence Passed = 30"
| "statePrecedence Skipped = 20"
| "statePrecedence Manual = 10"

definition merge :: "State \<Rightarrow> State \<Rightarrow> State" where
  "merge s other = (if statePrecedence s > statePrecedence other then s else other)"

text \<open>
  The order as the specification words it:
  running > pending > canceled > failed > passed > skipped > manual > unknown.
  \<open>specRank\<close> numbers the states along that chain, highest first.
\<close>

fun specRank :: "State \<Rightarrow> nat" where
  "specRank Running = 7"
| "specRank Pending = 6"
| "specRank Canceled = 5"
| "specRank Failed = 4"
| "specRank Passed = 3"
| "specRank Skipped = 2"
| "specRank Manual = 1"
| "specRank Unknown = 0"

definition specMerge :: "State \<Rightarrow> State \<Rightarrow> State" where
  "specMerge s t = (if specRank s > specRank t then s else t)"

text \<open>The order the table of the code defines, highest first.\<close>

definition precedenceOrder :: "State list" where
  "precedenceOrder = [Unknown, Running, Pending, Canceled, Failed, Passed, Skipped, Manual]"

section \<open>Nullable values and times (utils/utils.go)\<close>

text \<open>
  A \<^verbatim>\<open>time.Time\<close> is modelled by its instant, an integer count of nanoseconds from the
  zero time (the library keeps 64-bit seconds and nanoseconds, a range far wider than
  any duration). \<open>After\<close> and \<open>Before\<close> compare instants. A \<^verbatim>\<open>time.Duration\<close> is a
  64-bit count of nanoseconds, and \<^verbatim>\<open>Time.Sub\<close> returns the difference of the instants
  when it fits, the largest duration when the difference is above the range and the
  smallest when it is below. Monotonic clock readings are not modelled: the times of a
  step come from the providers' answers and carry none.
\<close>

type_synonym Time = int
type_synonym Duration = int

definition After :: "Time \<Rightarrow> Time \<Rightarrow> bool" where
  "After t u = (u < t)"





datatype NullString = NullString (Valid: bool) (String: string)

datatype NullTime = NullTime (Valid: bool) (Time: Time)

datatype NullDuration = NullDuration (Valid: bool) (Duration: Duration)






section \<open>Steps, pipelines and commits (cache/cache.go, lines 167-403)\<close>

datatype StepType = StepPipeline | StepStage | StepJob | StepTask

datatype Log = Log (Key: string) (Content: NullString)

datatype Step = Step
  (ID: string)
  (Name: string)
  (Type: StepType)
  (State: State)
  (AllowFailure: bool)
  (CreatedAt: NullTime)
  (StartedAt: NullTime)
  (FinishedAt: NullTime)
  (UpdatedAt: Time)
  (Duration: NullDuration)
  (WebURL: NullString)
  (Log: Log)
  (Children: "Step list")


record GitReference =
  SHA :: string
  Ref :: string
  IsTag :: bool

record Pipeline =
  Number :: string
  providerID :: string
  providerHost :: string
  gitReference :: GitReference
  step :: Step

record PipelineKey =
  ProviderHost :: string
  KeyID :: string

definition Key :: "Pipeline \<Rightarrow> PipelineKey" where
  "Key p = \<lparr>ProviderHost = providerHost p, KeyID = Step.ID (step p)\<rparr>"

record Commit =
  Sha :: string
  Author :: string
  Date :: Time
  Message :: string
  Branches :: "string list"
  Tags :: "string list"
  Head :: string
  Statuses :: "string list"

section \<open>Aggregate (cache/cache.go, lines 135-165)\<close>

text \<open>
  The body of the loop over \<^verbatim>\<open>&first\<close> and \<^verbatim>\<open>&last\<close>: an allowed failure
  (canceled or failed) counts as passed.
\<close>

definition allowedFailureAsPassed :: "Step \<Rightarrow> Step" where
  "allowedFailureAsPassed p =
     (case p of Step i nm ty st af cr sa fi up du wu lg ch \<Rightarrow>
        Step i nm ty (if af \<and> (st = Canceled \<or> st = Failed) then Passed else st)
          af cr sa fi up du wu lg ch)"


text \<open>
  The notions the claim about the aggregate speaks of. \<open>effectiveState\<close> is the state of
  a child with an allowed failure treated as passed. \<open>mergeStates\<close> is the fold of the
  merge of the code, whose precedence puts unknown highest; \<open>specMergeStates\<close> is the
  fold of the precedence merge of the specification, whose order puts unknown lowest.
  \<open>validTimes\<close> keeps the non-null timestamps.
\<close>

definition effectiveState :: "Step \<Rightarrow> State" where
  "effectiveState s =
     (if AllowFailure s \<and> (State s = Failed \<or> State s = Canceled) then Passed else State s)"




section \<open>Errors and providers (cache/cache.go, lines 22-43 and 431)\<close>

text \<open>
  The values of Go's \<^verbatim>\<open>error\<close> that the cache handles: its sentinel errors,
  \<^verbatim>\<open>context.Canceled\<close>, an error built by \<^verbatim>\<open>fmt.Errorf\<close> (its message), and an
  error wrapped with the identifier of the provider it came from. An \<open>error option\<close> is
  a Go \<^verbatim>\<open>error\<close>, \<open>None\<close> being \<^verbatim>\<open>nil\<close>.
\<close>

datatype error =
    ErrUnknownRepositoryURL
  | ErrUnknownPipelineURL
  | ErrUnknownGitReference
  | ErrObsoleteBuild
  | ContextCanceled
  | Errorf string
  | ProviderError string error

text \<open>
  The part of the \<^verbatim>\<open>CIProvider\<close> interface the cache's own operations call: the
  methods \<^verbatim>\<open>ID\<close>, \<^verbatim>\<open>Host\<close>, \<^verbatim>\<open>Name\<close> and \<^verbatim>\<open>Log\<close>.
\<close>

record CIProvider =
  ci_ID :: string
  ci_Host :: string
  ci_Name :: string
  ci_Log :: "Step \<Rightarrow> error + string"

section \<open>The cache (cache/cache.go, lines 405-529 and 793-881)\<close>

text \<open>
  The maps of the cache hold pointers \<^verbatim>\<open>*Pipeline\<close>, and \<^verbatim>\<open>SavePipeline\<close> compares
  them. A pointer is the address of a pipeline in \<open>store\<close>, the list of the pipelines
  allocated so far; \<^verbatim>\<open>&p\<close> appends \<open>p\<close> to the store and yields its index. The mutex is
  not modelled: every operation below runs as one atomic step. The list of the source
  providers is not part of the record; the broadcasts below take the results of the
  providers as an argument.
\<close>

type_synonym addr = nat

record Cache =
  ciProvidersByID :: "string \<rightharpoonup> CIProvider"
  commitsByRef :: "string \<rightharpoonup> Commit"
  pipelineByKey :: "PipelineKey \<rightharpoonup> addr"
  pipelineByRef :: "string \<rightharpoonup> (PipelineKey \<rightharpoonup> addr)"
  store :: "Pipeline list"

definition deref :: "Pipeline list \<Rightarrow> addr \<Rightarrow> Pipeline option" where
  "deref st a = (if a < length st then Some (st ! a) else None)"

definition NewCache :: "CIProvider list \<Rightarrow> Cache" where
  "NewCache CIProviders =
     \<lparr>ciProvidersByID = foldl (\<lambda>m provider. m(ci_ID provider \<mapsto> provider)) Map.empty CIProviders,
      commitsByRef = Map.empty,
      pipelineByKey = Map.empty,
      pipelineByRef = Map.empty,
      store = []\<rparr>"

text \<open>
  \<^verbatim>\<open>c.pipelineByRef[ref]\<close> after the test that creates the inner map when it is
  missing.
\<close>

definition refIndex :: "Cache \<Rightarrow> string \<Rightarrow> (PipelineKey \<rightharpoonup> addr)" where
  "refIndex c ref = (case pipelineByRef c ref of None \<Rightarrow> Map.empty | Some m \<Rightarrow> m)"

text \<open>The last lines of \<^verbatim>\<open>SavePipeline\<close> (456-463): store \<^verbatim>\<open>&p\<close> by key and by ref.\<close>

definition install :: "string \<Rightarrow> Pipeline \<Rightarrow> Cache \<Rightarrow> Cache" where
  "install ref p c =
     (let a = length (store c) in
      c\<lparr>store := store c @ [p],
        pipelineByKey := (pipelineByKey c)(Key p \<mapsto> a),
        pipelineByRef := (pipelineByRef c)(ref \<mapsto> (refIndex c ref)(Key p \<mapsto> a))\<rparr>)"

text \<open>
  \<^verbatim>\<open>SavePipeline\<close> returns the error and the cache it leaves. The outer \<open>None\<close> is the
  run-time panic of dereferencing a pointer that refers to no pipeline; lemma
  \<open>SavePipeline_total\<close> shows that it never happens in a well-formed cache.
\<close>

definition SavePipeline :: "string \<Rightarrow> Pipeline \<Rightarrow> Cache \<Rightarrow> (error option \<times> Cache) option" where
  "SavePipeline ref p c =
     (case pipelineByKey c (Key p) of
        None \<Rightarrow> Some (None, install ref p c)
      | Some existingBuild \<Rightarrow>
          if IsActive (State (step p)) then Some (None, install ref p c)
          else (case deref (store c) existingBuild of
                  None \<Rightarrow> None
                | Some existing \<Rightarrow>
                    if \<not> After (UpdatedAt (step p)) (UpdatedAt (step existing))
                    then (let c1 = c\<lparr>pipelineByRef := (pipelineByRef c)(ref \<mapsto> refIndex c ref)\<rparr> in
                          if refIndex c ref (Key p) = Some existingBuild
                          then Some (Some ErrObsoleteBuild, c1)
                          else Some (None, c1\<lparr>pipelineByRef :=
                                 (pipelineByRef c1)(ref \<mapsto> (refIndex c ref)(Key p \<mapsto> existingBuild))\<rparr>))
                    else Some (None, install ref p c)))"

text \<open>
  The branch and tag lists of a commit are slices of strings. The program never
  re-slices one, so a slice is the address of its backing array and its length, and
  its capacity is the length of that array; a nil slice is a slice of length zero on
  an array of length zero. The heap lists the backing arrays. The copies of a commit
  (the value stored for a ref, the value its sender keeps, the value stored for
  another ref) are slices on the same array.

  \<open>appendString\<close> is the built-in \<^verbatim>\<open>append\<close> of one string: it writes in place when the
  length is below the capacity, and otherwise allocates a new array that receives the
  elements of the slice, the string, and as many spare empty strings as the growth
  policy \<open>g\<close> of the runtime gives for that length.
\<close>

type_synonym heap = "string list list"

record slice =
  array :: addr
  len :: nat

definition arrayAt :: "heap \<Rightarrow> addr \<Rightarrow> string list" where
  "arrayAt h a = (if a < length h then h ! a else [])"

definition cap :: "heap \<Rightarrow> slice \<Rightarrow> nat" where
  "cap h s = length (arrayAt h (array s))"

definition validSlice :: "heap \<Rightarrow> slice \<Rightarrow> bool" where
  "validSlice h s = (array s < length h \<and> len s \<le> cap h s)"

definition view :: "heap \<Rightarrow> slice \<Rightarrow> string list" where
  "view h s = take (len s) (arrayAt h (array s))"

definition appendString :: "(nat \<Rightarrow> nat) \<Rightarrow> heap \<Rightarrow> slice \<Rightarrow> string \<Rightarrow> heap \<times> slice" where
  "appendString g h s b =
     (if len s < cap h s
      then (h[array s := (arrayAt h (array s))[len s := b]], s\<lparr>len := len s + 1\<rparr>)
      else (h @ [view h s @ b # replicate (g (len s)) []],
            \<lparr>array = length h, len = len s + 1\<rparr>))"

text \<open>
  One of the two loops of \<^verbatim>\<open>SaveCommit\<close>, on slices (lines 477-485 and 487-496): the
  set of the previous names is built before the loop, the incoming slice is ranged
  over by index up to the length it has when the loop starts, each element is read
  when its turn comes, and a name that is not in the set is appended to the previous
  slice.
\<close>

definition appendAbsent :: "(nat \<Rightarrow> nat) \<Rightarrow> heap \<Rightarrow> slice \<Rightarrow> slice \<Rightarrow> heap \<times> slice" where
  "appendAbsent g h previous incoming =
     foldl (\<lambda>(h1, p) i.
              (let b = arrayAt h1 (array incoming) ! i
               in if b \<in> set (view h previous) then (h1, p) else appendString g h1 p b))
       (h, previous) [0..<len incoming]"

text \<open>
  The same loop on the contents of the slices: a name is appended unless it is in the
  set built from the previous list before the loop. This is what the loop on slices
  computes when the incoming slice does not reach into the spare capacity of the
  previous one, and the commits of the cache are modelled by the contents of their
  lists. What an append in place does to a longer slice on the same array is seen on
  \<open>appendAbsent\<close> only.
\<close>

definition mergeNames :: "string list \<Rightarrow> string list \<Rightarrow> string list" where
  "mergeNames previous incoming =
     foldl (\<lambda>acc b. if b \<in> set previous then acc else acc @ [b]) previous incoming"

definition SaveCommit :: "string \<Rightarrow> Commit \<Rightarrow> Cache \<Rightarrow> Cache" where
  "SaveCommit ref commit c =
     (case commitsByRef c ref of
        Some previousCommit \<Rightarrow>
          (let c1 = (if Sha previousCommit \<noteq> Sha commit
                     then c\<lparr>pipelineByRef := (pipelineByRef c)(ref := None)\<rparr> else c);
               merged = previousCommit
                 \<lparr>Branches := mergeNames (Branches previousCommit) (Branches commit),
                  Tags := mergeNames (Tags previousCommit) (Tags commit)\<rparr>
           in c1\<lparr>commitsByRef := (commitsByRef c1)(ref \<mapsto> merged)\<rparr>)
      | None \<Rightarrow> c\<lparr>commitsByRef := (commitsByRef c)(ref \<mapsto> commit)\<rparr>)"

text \<open>A sequence of \<^verbatim>\<open>SaveCommit(ref, _)\<close> calls, in order.\<close>

definition SaveCommits :: "string \<Rightarrow> Commit list \<Rightarrow> Cache \<Rightarrow> Cache" where
  "SaveCommits ref commits c = foldl (\<lambda>c1 commit. SaveCommit ref commit c1) c commits"

text \<open>The readers \<^verbatim>\<open>Cache.Pipeline\<close> and \<^verbatim>\<open>Cache.Step\<close>.\<close>

definition Cache_Pipeline :: "Cache \<Rightarrow> PipelineKey \<Rightarrow> Pipeline option" where
  "Cache_Pipeline c key =
     (case pipelineByKey c key of None \<Rightarrow> None | Some p \<Rightarrow> deref (store c) p)"

fun walk :: "Step \<Rightarrow> string list \<Rightarrow> Step option" where
  "walk s [] = Some s"
| "walk s (i # ids) =
     (case find (\<lambda>childStep. Step.ID childStep = i) (Children s) of
        None \<Rightarrow> None
      | Some childStep \<Rightarrow> walk childStep ids)"

definition Cache_Step :: "Cache \<Rightarrow> PipelineKey \<Rightarrow> string list \<Rightarrow> Step option" where
  "Cache_Step c key stepIDs =
     (case Cache_Pipeline c key of None \<Rightarrow> None | Some p \<Rightarrow> walk (step p) stepIDs)"

text \<open>
  The set of pipelines \<^verbatim>\<open>PipelinesByRef\<close> returns (Go iterates over the map in no
  fixed order).
\<close>

definition PipelinesByRef :: "Cache \<Rightarrow> string \<Rightarrow> Pipeline set" where
  "PipelinesByRef c ref = {p. \<exists>k a. refIndex c ref k = Some a \<and> deref (store c) a = Some p}"

section \<open>Task keys and the log of a step (part_001, lines 16-24; cache.go, lines 831-881)\<close>

definition maxStepIDs :: nat where
  "maxStepIDs = 10"

text \<open>
  \<^verbatim>\<open>StepPath\<close> is an array of \<open>maxStepIDs\<close> nullable strings; it is modelled as a list,
  which the functions below create with that length and never resize.
\<close>

type_synonym StepPath = "NullString list"

record taskKey =
  key_providerHost :: string
  stepIDs :: StepPath

definition HasSuffix :: "string \<Rightarrow> string \<Rightarrow> bool" where
  "HasSuffix s suf = (length suf \<le> length s \<and> drop (length s - length suf) s = suf)"

definition newline :: string where
  "newline = [CHR 0x0A]"

text \<open>
  The identifiers after the first one, up to the first null one (lines 839-846).
\<close>

definition validPrefix :: "NullString list \<Rightarrow> string list" where
  "validPrefix ids = map String (takeWhile NullString.Valid ids)"

text \<open>
  \<^verbatim>\<open>Cache.Log\<close>, in two parts. \<open>fetchLog\<close> is the function up to line 874: find the step,
  then take its cached log content or, when that is null, ask the provider found under
  the pipeline's \<open>providerID\<close> (its \<^verbatim>\<open>Log\<close> method is the field \<open>ci_Log\<close>). \<open>Cache_Log\<close>
  adds the last lines (876-880), which append a newline to a log that does not end in
  one. An empty path cannot occur (the array has \<open>maxStepIDs\<close> elements); the model gives
  it the error of a step not found.
\<close>

definition fetchLog :: "Cache \<Rightarrow> taskKey \<Rightarrow> error + string" where
  "fetchLog c key =
     (case stepIDs key of
        [] \<Rightarrow> Inl (Errorf ''no matching step'')
      | first # others \<Rightarrow>
          (let pKey = \<lparr>ProviderHost = key_providerHost key, KeyID = String first\<rparr> in
           case Cache_Step c pKey (validPrefix others) of
             None \<Rightarrow> Inl (Errorf ''no matching step'')
           | Some s \<Rightarrow>
               if NullString.Valid (Content (Step.Log s)) then Inr (String (Content (Step.Log s)))
               else (let pid = (case Cache_Pipeline c pKey of
                                  None \<Rightarrow> [] | Some pipeline \<Rightarrow> providerID pipeline)
                     in case ciProvidersByID c pid of
                          None \<Rightarrow> Inl (Errorf ''no matching provider found in cache'')
                        | Some provider \<Rightarrow> ci_Log provider s)))"

definition Cache_Log :: "Cache \<Rightarrow> taskKey \<Rightarrow> error + string" where
  "Cache_Log c key =
     (case fetchLog c key of
        Inl err \<Rightarrow> Inl err
      | Inr log \<Rightarrow> Inr (if \<not> HasSuffix log newline then log @ newline else log))"

text \<open>
  "Ends in a single newline", as the specification words it: the text ends with a
  newline, and the character before that newline, if any, is not a newline.
\<close>

definition endsInSingleNewline :: "string \<Rightarrow> bool" where
  "endsInSingleNewline s = (HasSuffix s newline \<and> \<not> HasSuffix s (newline @ newline))"

section \<open>Projection of a pipeline into a task (part_001, lines 26-43 and 136-205)\<close>

datatype task = task
  (task_key: taskKey)
  (task_ref: GitReference)
  (task_number: string)
  (task_type: string)
  (task_state: State)
  (task_name: string)
  (task_provider: string)
  (task_prefix: string)
  (task_createdAt: NullTime)
  (task_startedAt: NullTime)
  (task_finishedAt: NullTime)
  (task_updatedAt: NullTime)
  (task_duration: NullDuration)
  (task_children: "task list")
  (task_traversable: bool)
  (task_url: NullString)

text \<open>The panic of \<^verbatim>\<open>taskFromStep\<close>: "exceeded maximum nesting depth for type task".\<close>

datatype panic = ExceededMaximumNestingDepth

text \<open>
  The first loop of \<^verbatim>\<open>taskFromStep\<close>: write the identifier into the first null slot
  of the path; \<open>None\<close> when no slot is null (\<^verbatim>\<open>keySet\<close> stays false).
\<close>

fun setStepID :: "StepPath \<Rightarrow> string \<Rightarrow> StepPath option" where
  "setStepID [] i = None"
| "setStepID (x # xs) i =
     (if \<not> NullString.Valid x then Some (NullString True i # xs)
      else map_option ((#) x) (setStepID xs i))"

text \<open>The results of the calls on the children, in order; the first panic ends the loop.\<close>

fun collect :: "(panic + 'a) list \<Rightarrow> panic + 'a list" where
  "collect [] = Inr []"
| "collect (Inl e # rs) = Inl e"
| "collect (Inr x # rs) = (case collect rs of Inl e \<Rightarrow> Inl e | Inr xs \<Rightarrow> Inr (x # xs))"

fun typeLetter :: "StepType \<Rightarrow> string" where
  "typeLetter StepPipeline = ''P''"
| "typeLetter StepStage = ''S''"
| "typeLetter StepJob = ''J''"
| "typeLetter StepTask = ''T''"

fun taskFromStep :: "Step \<Rightarrow> GitReference \<Rightarrow> taskKey \<Rightarrow> string \<Rightarrow> string \<Rightarrow> panic + task" where
  "taskFromStep (Step i nm ty st af cr sa fi up du wu lg ch) ref key provider number =
     (case setStepID (stepIDs key) i of
        None \<Rightarrow> Inl ExceededMaximumNestingDepth
      | Some ids \<Rightarrow>
          (case collect (map (\<lambda>childStep.
                   taskFromStep childStep ref (key\<lparr>stepIDs := ids\<rparr>) provider number) ch) of
             Inl e \<Rightarrow> Inl e
           | Inr children \<Rightarrow>
               Inr (task (key\<lparr>stepIDs := ids\<rparr>) ref number (typeLetter ty) st nm provider []
                      cr sa fi (NullTime True up) du children False wu)))"

text \<open>
  \<^verbatim>\<open>strconv.Atoi\<close> succeeds on an optional sign followed by decimal digits whose value
  fits the type \<^verbatim>\<open>int\<close> (64 bits on the platforms the program is built for).
\<close>

definition isDigit :: "char \<Rightarrow> bool" where
  "isDigit ch = (ch \<in> set ''0123456789'')"

definition digitsValue :: "string \<Rightarrow> nat" where
  "digitsValue ds = foldl (\<lambda>n ch. n * 10 + (of_char ch - 48)) 0 ds"

definition AtoiOk :: "string \<Rightarrow> bool" where
  "AtoiOk s =
     (case s of
        [] \<Rightarrow> False
      | ch # r \<Rightarrow>
          (let neg = (ch = CHR ''-'');
               ds = (if ch = CHR ''-'' \<or> ch = CHR ''+'' then r else s)
           in ds \<noteq> [] \<and> list_all isDigit ds
              \<and> (if neg then digitsValue ds \<le> 2 ^ 63 else digitsValue ds < 2 ^ 63)))"

definition taskFromPipeline :: "Pipeline \<Rightarrow> (string \<rightharpoonup> CIProvider) \<Rightarrow> panic + task" where
  "taskFromPipeline p providerByID =
     (let key = \<lparr>key_providerHost = providerHost p,
                 stepIDs = replicate maxStepIDs (NullString False [])\<rparr>;
          providerName = (case providerByID (providerID p) of
                            Some provider \<Rightarrow> ci_Name provider | None \<Rightarrow> ''unknown'');
          number0 = (if Number p = [] then Step.ID (step p) else Number p);
          number = (if AtoiOk number0 then ''#'' @ number0 else number0)
      in taskFromStep (step p) (gitReference p) key providerName number)"

text \<open>
  The identifier paths of the steps of a tree, from the root, in the order the tasks are
  built; the keys of the tasks of a task tree in the same order; and the array a path
  of at most \<open>maxStepIDs\<close> identifiers fills, the rest null.
\<close>

fun stepPaths :: "string list \<Rightarrow> Step \<Rightarrow> string list list" where
  "stepPaths pre (Step i nm ty st af cr sa fi up du wu lg ch) =
     (pre @ [i]) # concat (map (stepPaths (pre @ [i])) ch)"

fun taskKeys :: "task \<Rightarrow> taskKey list" where
  "taskKeys (task k rf nb tp st nm pv px cr sa fi up du ch tr ur) =
     k # concat (map taskKeys ch)"

definition pathArray :: "string list \<Rightarrow> StepPath" where
  "pathArray path =
     map (NullString True) path @ replicate (maxStepIDs - length path) (NullString False [])"

section \<open>Broadcasts: how the results of the providers are consolidated\<close>

text \<open>
  \<^verbatim>\<open>broadcastMonitorPipeline\<close> (cache.go, lines 596-642) starts one goroutine per CI
  provider and reads their errors from a channel. The model takes the list of the
  providers in the order in which their calls to \<^verbatim>\<open>monitorPipeline\<close> return, each with
  its identifier and the error it returned; every order of arrival is one such list.

  \<open>sentPipelineError\<close> is the goroutine: nothing is sent for \<^verbatim>\<open>nil\<close>, the errors
  \<^verbatim>\<open>ErrUnknownPipelineURL\<close> and \<^verbatim>\<open>context.Canceled\<close> are sent as they are, any other is
  wrapped. \<open>receivePipelineError\<close> is the body of the loop over the channel, on the pair
  of the counter \<^verbatim>\<open>n\<close> and the error \<^verbatim>\<open>err\<close>.
\<close>

definition sentPipelineError :: "string \<times> error option \<Rightarrow> error list" where
  "sentPipelineError r =
     (case snd r of
        None \<Rightarrow> []
      | Some err \<Rightarrow>
          [if err \<noteq> ErrUnknownPipelineURL \<and> err \<noteq> ContextCanceled
           then ProviderError (fst r) err else err])"

definition receivePipelineError :: "nat \<Rightarrow> nat \<times> error option \<Rightarrow> error \<Rightarrow> nat \<times> error option" where
  "receivePipelineError N acc e =
     (case acc of (n, err) \<Rightarrow>
        if e = ErrUnknownPipelineURL
        then (if n + 1 < N then (n + 1, err)
              else (n + 1, if err = None then Some e else err))
        else (n, if err = None then Some e else err))"

definition broadcastMonitorPipeline :: "(string \<times> error option) list \<Rightarrow> error option" where
  "broadcastMonitorPipeline results =
     snd (foldl (receivePipelineError (length results)) (0, None)
            (concat (map sentPipelineError results)))"

text \<open>
  \<^verbatim>\<open>broadcastMonitorRefStatus\<close> (cache.go, lines 647-719). \<open>originErr\<close> is the error of
  \<^verbatim>\<open>GitOriginURL\<close>; \<open>results\<close> are the errors returned by \<^verbatim>\<open>monitorRefStatuses\<close> for the
  source providers, in order of arrival (each goroutine sends its result, \<^verbatim>\<open>nil\<close>
  included). \<open>receiveRefStatus\<close> is the body of the loop over the channel, on the
  triple of \<^verbatim>\<open>n\<close>, \<^verbatim>\<open>canceled\<close> and \<^verbatim>\<open>err\<close>. The cancellation of the context while the
  local commit is sent (line 654) is not modelled.
\<close>

definition receiveRefStatus ::
  "nat \<Rightarrow> nat \<times> bool \<times> error option \<Rightarrow> error option \<Rightarrow> nat \<times> bool \<times> error option" where
  "receiveRefStatus N acc e =
     (case acc of (n, canceled, err) \<Rightarrow>
        if canceled then (n, canceled, err)
        else (let (n1, err1) =
                   (if e = Some ErrUnknownRepositoryURL
                    then (n + 1, if err = None then e else err)
                    else if e = Some ErrUnknownGitReference
                    then (n + 1, if err = None \<or> err = Some ErrUnknownRepositoryURL then e else err)
                    else (N, e))
              in if n1 \<ge> N then (n1, True, e) else (n1, False, err1)))"

definition consolidateRefStatus :: "error option \<Rightarrow> error option list \<Rightarrow> error option" where
  "consolidateRefStatus err0 results =
     snd (snd (foldl (receiveRefStatus (length results)) (0, False, err0) results))"

definition broadcastMonitorRefStatus :: "error option \<Rightarrow> error option list \<Rightarrow> error option" where
  "broadcastMonitorRefStatus originErr results =
     (if originErr = None \<or> originErr = Some ErrUnknownGitReference
         \<or> originErr = Some ErrUnknownRepositoryURL
      then consolidateRefStatus originErr results
      else originErr)"

section \<open>Well-formed caches and the conditions the claims speak of\<close>

text \<open>
  Every pointer held by the two pipeline maps refers to a pipeline of the store. Go
  guarantees it of any pointer that is not \<^verbatim>\<open>nil\<close>, and the maps never hold \<^verbatim>\<open>nil\<close>:
  the empty cache is well-formed, and \<open>SavePipeline\<close> and \<open>SaveCommit\<close> keep a cache so.
\<close>

definition wellFormed :: "Cache \<Rightarrow> bool" where
  "wellFormed c =
     ((\<forall>k a. pipelineByKey c k = Some a \<longrightarrow> a < length (store c))
      \<and> (\<forall>r m k a. pipelineByRef c r = Some m \<longrightarrow> m k = Some a \<longrightarrow> a < length (store c)))"

text \<open>
  The conditions of the specification's staleness rule. \<open>obsoleteFor c p\<close>: an entry
  exists for the key of \<open>p\<close>, the state of \<open>p\<close> is not active, and the updated timestamp
  of \<open>p\<close> is not strictly after the stored entry's. \<open>refPointsToStored c ref p\<close>: the
  index of \<open>ref\<close> already points to the stored entry.
\<close>

definition obsoleteFor :: "Cache \<Rightarrow> Pipeline \<Rightarrow> bool" where
  "obsoleteFor c p =
     (case Cache_Pipeline c (Key p) of
        None \<Rightarrow> False
      | Some stored \<Rightarrow>
          \<not> IsActive (State (step p)) \<and> \<not> After (UpdatedAt (step p)) (UpdatedAt (step stored)))"

definition refPointsToStored :: "Cache \<Rightarrow> string \<Rightarrow> Pipeline \<Rightarrow> bool" where
  "refPointsToStored c ref p =
     (case pipelineByKey c (Key p) of
        None \<Rightarrow> False
      | Some a \<Rightarrow> (case pipelineByRef c ref of None \<Rightarrow> False | Some m \<Rightarrow> m (Key p) = Some a))"

text \<open>
  The merge of the branch and tag lists as the specification words it: the existing
  entries in their order, then each new name once, in order of first appearance. It is
  a union without duplicates when the existing list has none.
\<close>

fun specMergeNames :: "string list \<Rightarrow> string list \<Rightarrow> string list" where
  "specMergeNames previous [] = previous"
| "specMergeNames previous (b # bs) =
     specMergeNames (if b \<in> set previous then previous else previous @ [b]) bs"

text \<open>One of the two errors that \<^verbatim>\<open>broadcastMonitorRefStatus\<close> counts.\<close>

definition unknownRepoOrRef :: "error option \<Rightarrow> bool" where
  "unknownRepoOrRef e = (e = Some ErrUnknownRepositoryURL \<or> e = Some ErrUnknownGitReference)"

section \<open>Example values\<close>

text \<open>
  Three jobs of a stage: one passed, one failed but allowed to fail, one skipped and
  never started. Then a single job that failed and is allowed to fail, whose provider
  reported a duration that is not the time between start and finish.
\<close>

definition exampleSteps :: "Step list" where
  "exampleSteps =
     [Step ''job1'' ''build'' StepJob Passed False (NullTime True 1) (NullTime True 2)
        (NullTime True 5) 5 (NullDuration True 3) (NullString False []) (Log.Log [] (NullString False [])) [],
      Step ''job2'' ''lint'' StepJob Failed True (NullTime False 0) (NullTime True 3)
        (NullTime True 9) 9 (NullDuration True 6) (NullString False []) (Log.Log [] (NullString False [])) [],
      Step ''job3'' ''deploy'' StepJob Skipped False (NullTime True 0) (NullTime False 0)
        (NullTime False 0) 4 (NullDuration False 0) (NullString False []) (Log.Log [] (NullString False [])) []]"




text \<open>A pipeline with the three jobs as children, and three commits.\<close>

definition examplePipeline :: Pipeline where
  "examplePipeline =
     \<lparr>Number = ''42'', providerID = ''travis-0'', providerHost = ''travis-ci.org'',
      gitReference = \<lparr>SHA = ''c824642'', Ref = ''master'', IsTag = False\<rparr>,
      step = Step ''609256446'' [] StepPipeline Passed False (NullTime True 1) (NullTime True 2)
               (NullTime True 28) 28 (NullDuration True 26) (NullString False [])
               (Log.Log [] (NullString False [])) exampleSteps\<rparr>"

definition exampleCommit :: Commit where
  "exampleCommit =
     \<lparr>Sha = ''c824642'', Author = ''nbedos'', Date = 3, Message = ''Fix tests'',
      Branches = [''master''], Tags = [], Head = ''master'', Statuses = []\<rparr>"

definition nextCommit :: Commit where
  "nextCommit =
     \<lparr>Sha = ''fd4c4ae'', Author = ''someone'', Date = 7, Message = ''Add feature'',
      Branches = [''dev'', ''dev''], Tags = [''v1''], Head = ''dev'',
      Statuses = [''https://ci.example.com/p/42'']\<rparr>"

definition thirdCommit :: Commit where
  "thirdCommit =
     \<lparr>Sha = ''fd4c4ae'', Author = ''someone'', Date = 7, Message = ''Add feature'',
      Branches = [''master'', ''feature''], Tags = [''v1'', ''v2''], Head = ''dev'',
      Statuses = []\<rparr>"

text \<open>
  A heap of three backing arrays. The first holds a list of three names and has room
  for a fourth, as the array of a list built by three successive appends has;
  \<open>storedBranches\<close> is that list. The other two hold one name each and are full.
  \<open>doubling\<close> is a growth policy that doubles the capacity of a full slice, and gives
  an empty one the capacity one.
\<close>

definition branchHeap :: heap where
  "branchHeap = [[''master'', ''dev'', ''feature'', []], [''fix''], [''hotfix'']]"

definition storedBranches :: slice where
  "storedBranches = \<lparr>array = 0, len = 3\<rparr>"

definition fixBranches :: slice where
  "fixBranches = \<lparr>array = 1, len = 1\<rparr>"

definition hotfixBranches :: slice where
  "hotfixBranches = \<lparr>array = 2, len = 1\<rparr>"

definition doubling :: "nat \<Rightarrow> nat" where
  "doubling n = n - 1"

text \<open>
  Two runs of the append loop from \<open>branchHeap\<close>, both on \<open>storedBranches\<close>, as for two
  refs that store copies of one commit: the first appends the name fix, the second,
  on the heap the first leaves, the name hotfix.
\<close>

definition afterFix :: "heap \<times> slice" where
  "afterFix = appendAbsent doubling branchHeap storedBranches fixBranches"

definition afterHotfix :: "heap \<times> slice" where
  "afterHotfix = appendAbsent doubling (fst afterFix) storedBranches hotfixBranches"

text \<open>The cache after \<open>examplePipeline\<close> was saved under the ref master.\<close>

definition exampleCache :: Cache where
  "exampleCache = install ''master'' examplePipeline (NewCache [])"

text \<open>
  The cache after \<open>exampleCommit\<close> was saved for the ref master and \<open>examplePipeline\<close>
  was saved under it.
\<close>

definition exampleCommitCache :: Cache where
  "exampleCommitCache = install ''master'' examplePipeline (SaveCommit ''master'' exampleCommit (NewCache []))"

text \<open>
  A chain of nested steps, each the only child of the one above: \<open>nestedStep n\<close> has
  \<open>n + 1\<close> levels. \<open>deepPipeline\<close> has eleven.
\<close>

fun nestedStep :: "nat \<Rightarrow> Step" where
  "nestedStep 0 =
     Step ''leaf'' [] StepTask Passed False (NullTime False 0) (NullTime False 0)
       (NullTime False 0) 0 (NullDuration False 0) (NullString False [])
       (Log.Log [] (NullString False [])) []"
| "nestedStep (Suc n) =
     Step ''level'' [] StepStage Passed False (NullTime False 0) (NullTime False 0)
       (NullTime False 0) 0 (NullDuration False 0) (NullString False [])
       (Log.Log [] (NullString False [])) [nestedStep n]"

definition deepPipeline :: Pipeline where
  "deepPipeline = examplePipeline\<lparr>step := nestedStep 10\<rparr>"

text \<open>
  A provider whose log of job4 ends in an empty line and whose other logs do not end in
  a newline, and a cache holding a pipeline with four jobs: the first has a cached log
  that ends in two newlines, the second a cached log without final newline, the third
  and the fourth no cached log. \<open>jobKey\<close> is the key of the task of a job.
\<close>

definition exampleProvider :: CIProvider where
  "exampleProvider =
     \<lparr>ci_ID = ''travis-0'', ci_Host = ''travis-ci.org'', ci_Name = ''travis'',
      ci_Log = (\<lambda>s. if Step.ID s = ''job4'' then Inr (''failed'' @ newline @ newline)
                     else Inr (''log of '' @ Step.ID s))\<rparr>"

definition logPipeline :: Pipeline where
  "logPipeline = examplePipeline\<lparr>step :=
     Step ''609256446'' [] StepPipeline Passed False (NullTime True 1) (NullTime True 2)
       (NullTime True 28) 28 (NullDuration True 26) (NullString False [])
       (Log.Log [] (NullString False []))
       [Step ''job1'' ''build'' StepJob Passed False (NullTime True 1) (NullTime True 2)
          (NullTime True 5) 5 (NullDuration True 3) (NullString False [])
          (Log.Log ''job1'' (NullString True (''ok'' @ newline @ newline))) [],
        Step ''job2'' ''lint'' StepJob Passed False (NullTime True 1) (NullTime True 3)
          (NullTime True 9) 9 (NullDuration True 6) (NullString False [])
          (Log.Log ''job2'' (NullString True ''done'')) [],
        Step ''job3'' ''deploy'' StepJob Passed False (NullTime True 1) (NullTime True 3)
          (NullTime True 9) 9 (NullDuration True 6) (NullString False [])
          (Log.Log [] (NullString False [])) [],
        Step ''job4'' ''notify'' StepJob Failed True (NullTime True 1) (NullTime True 3)
          (NullTime True 9) 9 (NullDuration True 6) (NullString False [])
          (Log.Log [] (NullString False [])) []]\<rparr>"

definition logCache :: Cache where
  "logCache = install ''master'' logPipeline (NewCache [exampleProvider])"

definition jobKey :: "string \<Rightarrow> taskKey" where
  "jobKey job = \<lparr>key_providerHost = ''travis-ci.org'', stepIDs = pathArray [''609256446'', job]\<rparr>"

section \<open>Facts about merge\<close>

lemma statePrecedence_inj: "statePrecedence s = statePrecedence t \<longleftrightarrow> s = t"
  by (cases s; cases t; simp)

lemma merge_idem: "merge s s = s"
  by (simp add: merge_def)

lemma merge_commute: "merge s t = merge t s"
  using statePrecedence_inj [of s t] by (auto simp: merge_def)

lemma merge_assoc: "merge (merge s t) u = merge s (merge t u)"
  using statePrecedence_inj [of s t] statePrecedence_inj [of t u] statePrecedence_inj [of s u]
  by (auto simp: merge_def)

lemma statePrecedence_merge:
  "statePrecedence (merge s t) = max (statePrecedence s) (statePrecedence t)"
  by (simp add: merge_def max_def)

lemma merge_Unknown_left: "merge Unknown t = Unknown"
  by (cases t; simp add: merge_def)

lemma merge_Unknown_right: "merge s Unknown = Unknown"
  by (cases s; simp add: merge_def)

text \<open>
  Claim C3, as stated, fails: merging unknown with passed yields unknown, although
  unknown is the lowest state of the specification's order and passed ranks above it.
\<close>

theorem C3_unknown_wins_counterexample:
  "merge Unknown Passed = Unknown \<and> specRank Unknown < specRank Passed
   \<and> merge Unknown Passed \<noteq> specMerge Unknown Passed"
  by (simp add: merge_def specMerge_def)

text \<open>
  Claim C3, amended: the precedence order of the code is the total order
  unknown > running > pending > canceled > failed > passed > skipped > manual
  (strictly decreasing precedences along \<open>precedenceOrder\<close>, which lists every state),
  and merging two states yields whichever of the two ranks higher in that order; unknown
  ranks highest and wins every merge. On the seven states other than unknown the order is
  the one of the specification.
\<close>

theorem C3_merge_precedence:
  "map statePrecedence precedenceOrder = [80, 70, 60, 50, 40, 30, 20, 10]
   \<and> set precedenceOrder = UNIV
   \<and> (statePrecedence s = statePrecedence t \<longleftrightarrow> s = t)
   \<and> (merge s t = s \<or> merge s t = t)
   \<and> statePrecedence (merge s t) = max (statePrecedence s) (statePrecedence t)
   \<and> merge s t = merge t s
   \<and> merge Unknown t = Unknown \<and> merge s Unknown = Unknown
   \<and> (if s = Unknown \<or> t = Unknown then merge s t = Unknown else merge s t = specMerge s t)"
proof -
  have univ: "set precedenceOrder = UNIV"
  proof -
    have "x \<in> set precedenceOrder" for x
      by (cases x; simp add: precedenceOrder_def)
    then show ?thesis by blast
  qed
  have spec: "if s = Unknown \<or> t = Unknown then merge s t = Unknown else merge s t = specMerge s t"
    by (cases s; cases t; simp add: merge_def specMerge_def)
  have pick: "merge s t = s \<or> merge s t = t"
    by (simp add: merge_def)
  show ?thesis
    using univ spec pick statePrecedence_inj [of s t] statePrecedence_merge [of s t]
      merge_commute [of s t] merge_Unknown_left [of t] merge_Unknown_right [of s]
    by (simp add: precedenceOrder_def)
qed

section \<open>Aggregate\<close>



lemma allowed_sel [simp]:
  "State (allowedFailureAsPassed p) = effectiveState p"
  "AllowFailure (allowedFailureAsPassed p) = AllowFailure p"
  "CreatedAt (allowedFailureAsPassed p) = CreatedAt p"
  "StartedAt (allowedFailureAsPassed p) = StartedAt p"
  "FinishedAt (allowedFailureAsPassed p) = FinishedAt p"
  "UpdatedAt (allowedFailureAsPassed p) = UpdatedAt p"
  by (cases p; auto simp: allowedFailureAsPassed_def effectiveState_def)+






















section \<open>SavePipeline\<close>

lemma wellFormed_NewCache: "wellFormed (NewCache ps)"
  by (simp add: wellFormed_def NewCache_def)

lemma refIndex_bound:
  "wellFormed c \<Longrightarrow> refIndex c ref k = Some a \<Longrightarrow> a < length (store c)"
  by (auto simp: wellFormed_def refIndex_def split: option.splits)

lemma wellFormed_install: "wellFormed c \<Longrightarrow> wellFormed (install ref p c)"
  unfolding wellFormed_def install_def Let_def
  by (auto simp: less_Suc_eq refIndex_def split: option.splits if_splits)

lemma wellFormed_point:
  assumes "wellFormed c" and "a < length (store c)"
  shows "wellFormed (c\<lparr>pipelineByRef := (pipelineByRef c)(ref \<mapsto> (refIndex c ref)(k \<mapsto> a))\<rparr>)"
  using assms unfolding wellFormed_def
  by (auto simp: refIndex_def split: option.splits if_splits)

lemma Cache_Pipeline_wf:
  "wellFormed c \<Longrightarrow> pipelineByKey c k = Some a \<Longrightarrow> Cache_Pipeline c k = Some (store c ! a)"
  by (simp add: Cache_Pipeline_def deref_def wellFormed_def)

lemma install_props:
  "pipelineByKey (install ref p c) (Key p) = Some (length (store c))"
  "refIndex (install ref p c) ref (Key p) = Some (length (store c))"
  "Cache_Pipeline (install ref p c) (Key p) = Some p"
  "commitsByRef (install ref p c) = commitsByRef c"
  "store (install ref p c) = store c @ [p]"
  by (simp_all add: install_def Let_def refIndex_def Cache_Pipeline_def deref_def)

lemma SavePipeline_fresh:
  "\<not> obsoleteFor c p \<Longrightarrow> wellFormed c \<Longrightarrow> SavePipeline ref p c = Some (None, install ref p c)"
  by (auto simp: SavePipeline_def obsoleteFor_def Cache_Pipeline_def deref_def wellFormed_def
      split: option.splits)

lemma SavePipeline_obsolete:
  assumes "obsoleteFor c p" and "refPointsToStored c ref p"
  shows "SavePipeline ref p c = Some (Some ErrObsoleteBuild, c)"
proof -
  from assms(2) obtain a m where a: "pipelineByKey c (Key p) = Some a"
    and m: "pipelineByRef c ref = Some m" "m (Key p) = Some a"
    by (auto simp: refPointsToStored_def split: option.splits)
  from assms(1) a obtain e where e: "deref (store c) a = Some e"
    and old: "\<not> IsActive (State (step p))" "\<not> After (UpdatedAt (step p)) (UpdatedAt (step e))"
    by (auto simp: obsoleteFor_def Cache_Pipeline_def split: option.splits)
  have idx: "refIndex c ref = m" using m by (simp add: refIndex_def)
  have "(pipelineByRef c)(ref \<mapsto> m) = pipelineByRef c"
    using m(1) by (rule fun_upd_idem)
  then show ?thesis
    using a e old idx m by (simp add: SavePipeline_def)
qed

lemma SavePipeline_repoint:
  assumes "obsoleteFor c p" and "\<not> refPointsToStored c ref p"
    and a: "pipelineByKey c (Key p) = Some a"
  shows "SavePipeline ref p c =
    Some (None, c\<lparr>pipelineByRef := (pipelineByRef c)(ref \<mapsto> (refIndex c ref)(Key p \<mapsto> a))\<rparr>)"
proof -
  from assms(1) a obtain e where e: "deref (store c) a = Some e"
    and old: "\<not> IsActive (State (step p))" "\<not> After (UpdatedAt (step p)) (UpdatedAt (step e))"
    by (auto simp: obsoleteFor_def Cache_Pipeline_def split: option.splits)
  have "refIndex c ref (Key p) \<noteq> Some a"
    using assms(2) a by (auto simp: refPointsToStored_def refIndex_def split: option.splits)
  then show ?thesis
    using a e old by (simp add: SavePipeline_def)
qed


lemma SavePipeline_total:
  assumes "wellFormed c"
  shows "SavePipeline ref p c \<noteq> None"
proof (cases "obsoleteFor c p")
  case False
  then show ?thesis using SavePipeline_fresh [OF False assms, of ref] by simp
next
  case True
  then obtain a where a: "pipelineByKey c (Key p) = Some a"
    by (auto simp: obsoleteFor_def Cache_Pipeline_def split: option.splits)
  show ?thesis
  proof (cases "refPointsToStored c ref p")
    case True
    with \<open>obsoleteFor c p\<close> show ?thesis using SavePipeline_obsolete by simp
  next
    case False
    with \<open>obsoleteFor c p\<close> a show ?thesis using SavePipeline_repoint by simp
  qed
qed

lemma not_obsoleteFor_iff:
  assumes "wellFormed c"
  shows "(\<not> obsoleteFor c p) =
     (pipelineByKey c (Key p) = None \<or> IsActive (State (step p))
      \<or> (\<exists>stored. Cache_Pipeline c (Key p) = Some stored
            \<and> After (UpdatedAt (step p)) (UpdatedAt (step stored))))"
proof (cases "pipelineByKey c (Key p)")
  case None
  then show ?thesis by (simp add: obsoleteFor_def Cache_Pipeline_def)
next
  case (Some a)
  then show ?thesis
    using Cache_Pipeline_wf [OF assms Some] by (auto simp: obsoleteFor_def)
qed

text \<open>
  Claim C1. In a well-formed cache, \<open>SavePipeline ref p\<close> returns \<open>ErrObsoleteBuild\<close> if and
  only if an entry exists for the key of \<open>p\<close>, \<open>p\<close> is not active, its updated timestamp is
  not strictly after the stored entry's, and the index of \<open>ref\<close> already points to the
  stored entry; the cache is then left as it was. When the first three conditions hold
  and the index of \<open>ref\<close> does not point to the stored entry, the call succeeds, the
  stored pipeline and the map by key are retained unchanged, and the index of \<open>ref\<close>
  points to the stored entry. Otherwise (no entry, or \<open>p\<close> active, or \<open>p\<close> strictly newer)
  the call succeeds and \<open>p\<close> is installed by key and in the index of \<open>ref\<close>, both
  pointing to the same new entry of the store. The cache stays well-formed.
\<close>

theorem C1_SavePipeline:
  assumes "wellFormed c"
  shows
   "((\<exists>c'. SavePipeline ref p c = Some (Some ErrObsoleteBuild, c'))
       \<longleftrightarrow> obsoleteFor c p \<and> refPointsToStored c ref p)
    \<and> (obsoleteFor c p \<and> refPointsToStored c ref p \<longrightarrow>
          SavePipeline ref p c = Some (Some ErrObsoleteBuild, c))
    \<and> (obsoleteFor c p \<and> \<not> refPointsToStored c ref p \<longrightarrow>
         (\<exists>c'. SavePipeline ref p c = Some (None, c') \<and> wellFormed c'
               \<and> pipelineByKey c' = pipelineByKey c \<and> store c' = store c
               \<and> commitsByRef c' = commitsByRef c
               \<and> Cache_Pipeline c' (Key p) = Cache_Pipeline c (Key p)
               \<and> refIndex c' ref (Key p) = pipelineByKey c (Key p)
               \<and> (\<forall>k. k \<noteq> Key p \<longrightarrow> refIndex c' ref k = refIndex c ref k)
               \<and> (\<forall>r. r \<noteq> ref \<longrightarrow> pipelineByRef c' r = pipelineByRef c r)))
    \<and> ((\<not> obsoleteFor c p) =
         (pipelineByKey c (Key p) = None \<or> IsActive (State (step p))
          \<or> (\<exists>stored. Cache_Pipeline c (Key p) = Some stored
                \<and> After (UpdatedAt (step p)) (UpdatedAt (step stored)))))
    \<and> (\<not> obsoleteFor c p \<longrightarrow>
         (\<exists>c'. SavePipeline ref p c = Some (None, c') \<and> wellFormed c'
               \<and> Cache_Pipeline c' (Key p) = Some p
               \<and> pipelineByKey c' (Key p) = Some (length (store c))
               \<and> refIndex c' ref (Key p) = Some (length (store c))
               \<and> store c' = store c @ [p] \<and> commitsByRef c' = commitsByRef c
               \<and> (\<forall>k. k \<noteq> Key p \<longrightarrow> pipelineByKey c' k = pipelineByKey c k
                                    \<and> refIndex c' ref k = refIndex c ref k)
               \<and> (\<forall>r. r \<noteq> ref \<longrightarrow> pipelineByRef c' r = pipelineByRef c r)))"
proof -
  have obsolete: "obsoleteFor c p \<and> refPointsToStored c ref p \<longrightarrow>
          SavePipeline ref p c = Some (Some ErrObsoleteBuild, c)"
    using SavePipeline_obsolete by blast
  have repoint: "obsoleteFor c p \<and> \<not> refPointsToStored c ref p \<longrightarrow>
         (\<exists>c'. SavePipeline ref p c = Some (None, c') \<and> wellFormed c'
               \<and> pipelineByKey c' = pipelineByKey c \<and> store c' = store c
               \<and> commitsByRef c' = commitsByRef c
               \<and> Cache_Pipeline c' (Key p) = Cache_Pipeline c (Key p)
               \<and> refIndex c' ref (Key p) = pipelineByKey c (Key p)
               \<and> (\<forall>k. k \<noteq> Key p \<longrightarrow> refIndex c' ref k = refIndex c ref k)
               \<and> (\<forall>r. r \<noteq> ref \<longrightarrow> pipelineByRef c' r = pipelineByRef c r))"
  proof (intro impI, elim conjE)
    assume ob: "obsoleteFor c p" and np: "\<not> refPointsToStored c ref p"
    from ob obtain a where a: "pipelineByKey c (Key p) = Some a"
      by (auto simp: obsoleteFor_def Cache_Pipeline_def split: option.splits)
    let ?c' = "c\<lparr>pipelineByRef := (pipelineByRef c)(ref \<mapsto> (refIndex c ref)(Key p \<mapsto> a))\<rparr>"
    have bound: "a < length (store c)"
      using assms a by (simp add: wellFormed_def)
    have "SavePipeline ref p c = Some (None, ?c')"
      by (rule SavePipeline_repoint [OF ob np a])
    moreover have "wellFormed ?c'"
      by (rule wellFormed_point [OF assms bound])
    moreover have "refIndex ?c' ref (Key p) = pipelineByKey c (Key p)"
      "\<forall>k. k \<noteq> Key p \<longrightarrow> refIndex ?c' ref k = refIndex c ref k"
      "Cache_Pipeline ?c' (Key p) = Cache_Pipeline c (Key p)"
      using a by (simp_all add: refIndex_def Cache_Pipeline_def)
    ultimately show "\<exists>c'. SavePipeline ref p c = Some (None, c') \<and> wellFormed c'
               \<and> pipelineByKey c' = pipelineByKey c \<and> store c' = store c
               \<and> commitsByRef c' = commitsByRef c
               \<and> Cache_Pipeline c' (Key p) = Cache_Pipeline c (Key p)
               \<and> refIndex c' ref (Key p) = pipelineByKey c (Key p)
               \<and> (\<forall>k. k \<noteq> Key p \<longrightarrow> refIndex c' ref k = refIndex c ref k)
               \<and> (\<forall>r. r \<noteq> ref \<longrightarrow> pipelineByRef c' r = pipelineByRef c r)"
      by (intro exI [of _ ?c']) simp
  qed
  have fresh: "\<not> obsoleteFor c p \<longrightarrow>
         (\<exists>c'. SavePipeline ref p c = Some (None, c') \<and> wellFormed c'
               \<and> Cache_Pipeline c' (Key p) = Some p
               \<and> pipelineByKey c' (Key p) = Some (length (store c))
               \<and> refIndex c' ref (Key p) = Some (length (store c))
               \<and> store c' = store c @ [p] \<and> commitsByRef c' = commitsByRef c
               \<and> (\<forall>k. k \<noteq> Key p \<longrightarrow> pipelineByKey c' k = pipelineByKey c k
                                    \<and> refIndex c' ref k = refIndex c ref k)
               \<and> (\<forall>r. r \<noteq> ref \<longrightarrow> pipelineByRef c' r = pipelineByRef c r))"
  proof
    assume no: "\<not> obsoleteFor c p"
    have others: "\<forall>k. k \<noteq> Key p \<longrightarrow> pipelineByKey (install ref p c) k = pipelineByKey c k
                                    \<and> refIndex (install ref p c) ref k = refIndex c ref k"
      "\<forall>r. r \<noteq> ref \<longrightarrow> pipelineByRef (install ref p c) r = pipelineByRef c r"
      by (simp_all add: install_def Let_def refIndex_def)
    show "\<exists>c'. SavePipeline ref p c = Some (None, c') \<and> wellFormed c'
               \<and> Cache_Pipeline c' (Key p) = Some p
               \<and> pipelineByKey c' (Key p) = Some (length (store c))
               \<and> refIndex c' ref (Key p) = Some (length (store c))
               \<and> store c' = store c @ [p] \<and> commitsByRef c' = commitsByRef c
               \<and> (\<forall>k. k \<noteq> Key p \<longrightarrow> pipelineByKey c' k = pipelineByKey c k
                                    \<and> refIndex c' ref k = refIndex c ref k)
               \<and> (\<forall>r. r \<noteq> ref \<longrightarrow> pipelineByRef c' r = pipelineByRef c r)"
      using SavePipeline_fresh [OF no assms, of ref] wellFormed_install [OF assms, of ref p]
        install_props [of ref p c] others
      by (intro exI [of _ "install ref p c"]) simp
  qed
  have iff: "(\<exists>c'. SavePipeline ref p c = Some (Some ErrObsoleteBuild, c'))
       \<longleftrightarrow> obsoleteFor c p \<and> refPointsToStored c ref p"
  proof
    assume "\<exists>c'. SavePipeline ref p c = Some (Some ErrObsoleteBuild, c')"
    then obtain c' where r: "SavePipeline ref p c = Some (Some ErrObsoleteBuild, c')" ..
    show "obsoleteFor c p \<and> refPointsToStored c ref p"
    proof (rule ccontr)
      assume "\<not> (obsoleteFor c p \<and> refPointsToStored c ref p)"
      then consider "\<not> obsoleteFor c p" | "obsoleteFor c p" "\<not> refPointsToStored c ref p"
        by blast
      then show False
      proof cases
        case 1
        with fresh r show False by auto
      next
        case 2
        with repoint r show False by auto
      qed
    qed
  next
    assume "obsoleteFor c p \<and> refPointsToStored c ref p"
    with obsolete show "\<exists>c'. SavePipeline ref p c = Some (Some ErrObsoleteBuild, c')" by blast
  qed
  note cases = not_obsoleteFor_iff [OF assms, of p]
  show ?thesis
    by (intro conjI) (fact iff, fact obsolete, fact repoint, fact cases, fact fresh)
qed

lemma exampleCache_facts:
  "wellFormed exampleCache"
  "obsoleteFor exampleCache examplePipeline"
  "refPointsToStored exampleCache ''master'' examplePipeline"
  "\<not> refPointsToStored exampleCache ''v1.0'' examplePipeline"
  "\<not> obsoleteFor (NewCache []) examplePipeline"
proof -
  show "wellFormed exampleCache"
    unfolding exampleCache_def by (intro wellFormed_install wellFormed_NewCache)
  show "obsoleteFor exampleCache examplePipeline"
    by (simp add: exampleCache_def obsoleteFor_def install_props examplePipeline_def
        IsActive_def After_def)
  show "refPointsToStored exampleCache ''master'' examplePipeline"
    by (simp add: exampleCache_def refPointsToStored_def install_def Let_def NewCache_def)
  show "\<not> refPointsToStored exampleCache ''v1.0'' examplePipeline"
    by (simp add: exampleCache_def refPointsToStored_def install_def Let_def NewCache_def)
  show "\<not> obsoleteFor (NewCache []) examplePipeline"
    by (simp add: obsoleteFor_def Cache_Pipeline_def NewCache_def)
qed

text \<open>
  The three cases at concrete caches: a first save into the empty cache, the same save
  again under the same ref, and the same save under another ref.
\<close>

theorem C1_SavePipeline_witness:
  "wellFormed (NewCache []) \<and> \<not> obsoleteFor (NewCache []) examplePipeline
   \<and> (\<exists>c'. SavePipeline ''master'' examplePipeline (NewCache []) = Some (None, c')
         \<and> Cache_Pipeline c' (Key examplePipeline) = Some examplePipeline
         \<and> refIndex c' ''master'' (Key examplePipeline) = pipelineByKey c' (Key examplePipeline))
   \<and> wellFormed exampleCache \<and> obsoleteFor exampleCache examplePipeline
   \<and> refPointsToStored exampleCache ''master'' examplePipeline
   \<and> SavePipeline ''master'' examplePipeline exampleCache = Some (Some ErrObsoleteBuild, exampleCache)
   \<and> \<not> refPointsToStored exampleCache ''v1.0'' examplePipeline
   \<and> (\<exists>c'. SavePipeline ''v1.0'' examplePipeline exampleCache = Some (None, c')
         \<and> store c' = store exampleCache
         \<and> refIndex c' ''v1.0'' (Key examplePipeline) = pipelineByKey exampleCache (Key examplePipeline))"
proof -
  note f = exampleCache_facts
  note new = C1_SavePipeline [OF wellFormed_NewCache, of "''master''" examplePipeline "[]"]
  note old = C1_SavePipeline [OF f(1), of "''master''" examplePipeline]
  note other = C1_SavePipeline [OF f(1), of "''v1.0''" examplePipeline]
  have "\<exists>c'. SavePipeline ''master'' examplePipeline (NewCache []) = Some (None, c')
         \<and> wellFormed c'
         \<and> Cache_Pipeline c' (Key examplePipeline) = Some examplePipeline
         \<and> pipelineByKey c' (Key examplePipeline) = Some (length (store (NewCache [])))
         \<and> refIndex c' ''master'' (Key examplePipeline) = Some (length (store (NewCache [])))
         \<and> store c' = store (NewCache []) @ [examplePipeline]
         \<and> commitsByRef c' = commitsByRef (NewCache [])
         \<and> (\<forall>k. k \<noteq> Key examplePipeline \<longrightarrow>
                 pipelineByKey c' k = pipelineByKey (NewCache []) k
                 \<and> refIndex c' ''master'' k = refIndex (NewCache []) ''master'' k)
         \<and> (\<forall>r. r \<noteq> ''master'' \<longrightarrow> pipelineByRef c' r = pipelineByRef (NewCache []) r)"
    using new [THEN conjunct2, THEN conjunct2, THEN conjunct2, THEN conjunct2] f(5)
    by (rule mp)
  then obtain c1 where c1: "SavePipeline ''master'' examplePipeline (NewCache []) = Some (None, c1)"
    "Cache_Pipeline c1 (Key examplePipeline) = Some examplePipeline"
    "pipelineByKey c1 (Key examplePipeline) = Some (length (store (NewCache [])))"
    "refIndex c1 ''master'' (Key examplePipeline) = Some (length (store (NewCache [])))"
    by (elim exE conjE)
  have a: "\<exists>c'. SavePipeline ''master'' examplePipeline (NewCache []) = Some (None, c')
         \<and> Cache_Pipeline c' (Key examplePipeline) = Some examplePipeline
         \<and> refIndex c' ''master'' (Key examplePipeline) = pipelineByKey c' (Key examplePipeline)"
    using c1 by (intro exI [of _ c1]) simp
  have b: "SavePipeline ''master'' examplePipeline exampleCache
      = Some (Some ErrObsoleteBuild, exampleCache)"
    using old [THEN conjunct2, THEN conjunct1] f(2,3) by simp
  have "\<exists>c'. SavePipeline ''v1.0'' examplePipeline exampleCache = Some (None, c')
         \<and> wellFormed c'
         \<and> pipelineByKey c' = pipelineByKey exampleCache \<and> store c' = store exampleCache
         \<and> commitsByRef c' = commitsByRef exampleCache
         \<and> Cache_Pipeline c' (Key examplePipeline) = Cache_Pipeline exampleCache (Key examplePipeline)
         \<and> refIndex c' ''v1.0'' (Key examplePipeline) = pipelineByKey exampleCache (Key examplePipeline)
         \<and> (\<forall>k. k \<noteq> Key examplePipeline \<longrightarrow> refIndex c' ''v1.0'' k = refIndex exampleCache ''v1.0'' k)
         \<and> (\<forall>r. r \<noteq> ''v1.0'' \<longrightarrow> pipelineByRef c' r = pipelineByRef exampleCache r)"
    using other [THEN conjunct2, THEN conjunct2, THEN conjunct1] f(2,4) by simp
  then obtain c2 where c2: "SavePipeline ''v1.0'' examplePipeline exampleCache = Some (None, c2)"
    "store c2 = store exampleCache"
    "refIndex c2 ''v1.0'' (Key examplePipeline) = pipelineByKey exampleCache (Key examplePipeline)"
    by (elim exE conjE)
  have c: "\<exists>c'. SavePipeline ''v1.0'' examplePipeline exampleCache = Some (None, c')
         \<and> store c' = store exampleCache
         \<and> refIndex c' ''v1.0'' (Key examplePipeline) = pipelineByKey exampleCache (Key examplePipeline)"
    using c2 by (intro exI [of _ c2]) simp
  show ?thesis
    by (intro conjI) (fact wellFormed_NewCache, fact f(5), fact a, fact f(1), fact f(2), fact f(3),
        fact b, fact f(4), fact c)
qed

section \<open>SaveCommit\<close>

lemma mergeNames_append: "foldl (\<lambda>acc b. if b \<in> S then acc else acc @ [b]) acc incoming
    = acc @ filter (\<lambda>b. b \<notin> S) incoming"
  by (induction incoming arbitrary: acc) simp_all

lemma mergeNames_eq:
  "mergeNames previous incoming = previous @ filter (\<lambda>b. b \<notin> set previous) incoming"
  unfolding mergeNames_def by (rule mergeNames_append)

lemma SaveCommit_Some:
  assumes "commitsByRef c ref = Some previous"
  shows "commitsByRef (SaveCommit ref commit c) ref =
    Some (previous\<lparr>Branches := mergeNames (Branches previous) (Branches commit),
                   Tags := mergeNames (Tags previous) (Tags commit)\<rparr>)"
  using assms by (simp add: SaveCommit_def Let_def)

lemma SaveCommit_None:
  assumes "commitsByRef c ref = None"
  shows "commitsByRef (SaveCommit ref commit c) ref = Some commit"
  using assms by (simp add: SaveCommit_def)

lemma SaveCommit_frame:
  "pipelineByKey (SaveCommit ref commit c) = pipelineByKey c"
  "store (SaveCommit ref commit c) = store c"
  "ciProvidersByID (SaveCommit ref commit c) = ciProvidersByID c"
  by (simp_all add: SaveCommit_def Let_def split: option.splits)

lemma wellFormed_SaveCommit: "wellFormed c \<Longrightarrow> wellFormed (SaveCommit ref commit c)"
  unfolding wellFormed_def SaveCommit_def Let_def
  by (auto split: option.splits if_splits)

text \<open>
  Claim C6. When a commit is already stored for \<open>ref\<close> and its sha differs from the sha
  of the commit being saved, the index of \<open>ref\<close> is empty right after \<open>SaveCommit\<close>: the
  entry of \<open>ref\<close> is gone from \<open>pipelineByRef\<close> and no pipeline is listed for \<open>ref\<close>. The
  map by key and the store are unchanged, so every pipeline, those indexed under \<open>ref\<close>
  before included, is still found by its key.
\<close>

theorem C6_SaveCommit_drops_ref_index:
  assumes "commitsByRef c ref = Some previous" and "Sha previous \<noteq> Sha commit"
  shows "pipelineByRef (SaveCommit ref commit c) ref = None
    \<and> refIndex (SaveCommit ref commit c) ref = Map.empty
    \<and> PipelinesByRef (SaveCommit ref commit c) ref = {}
    \<and> pipelineByKey (SaveCommit ref commit c) = pipelineByKey c
    \<and> store (SaveCommit ref commit c) = store c
    \<and> Cache_Pipeline (SaveCommit ref commit c) key = Cache_Pipeline c key"
proof -
  have gone: "pipelineByRef (SaveCommit ref commit c) ref = None"
    using assms by (simp add: SaveCommit_def Let_def)
  then have empty: "refIndex (SaveCommit ref commit c) ref = Map.empty"
    by (simp add: refIndex_def)
  then have none: "PipelinesByRef (SaveCommit ref commit c) ref = {}"
    by (simp add: PipelinesByRef_def)
  have same: "Cache_Pipeline (SaveCommit ref commit c) key = Cache_Pipeline c key"
    unfolding Cache_Pipeline_def SaveCommit_frame ..
  show ?thesis
    using gone empty none same by (simp add: SaveCommit_frame)
qed

lemma exampleCommitCache_facts:
  "commitsByRef exampleCommitCache ''master'' = Some exampleCommit"
  "refIndex exampleCommitCache ''master'' (Key examplePipeline) = Some 0"
  "Cache_Pipeline exampleCommitCache (Key examplePipeline) = Some examplePipeline"
  by (simp_all add: exampleCommitCache_def install_props SaveCommit_def NewCache_def
      install_def refIndex_def Let_def Cache_Pipeline_def deref_def)

text \<open>
  A cache that holds a pipeline under the ref master, and a commit with another sha
  saved for that ref.
\<close>

theorem C6_SaveCommit_drops_ref_index_witness:
  "commitsByRef exampleCommitCache ''master'' = Some exampleCommit
   \<and> Sha exampleCommit \<noteq> Sha nextCommit
   \<and> refIndex exampleCommitCache ''master'' (Key examplePipeline) = Some 0
   \<and> pipelineByRef (SaveCommit ''master'' nextCommit exampleCommitCache) ''master'' = None
   \<and> PipelinesByRef (SaveCommit ''master'' nextCommit exampleCommitCache) ''master'' = {}
   \<and> Cache_Pipeline (SaveCommit ''master'' nextCommit exampleCommitCache) (Key examplePipeline)
       = Some examplePipeline"
proof -
  have sha: "Sha exampleCommit \<noteq> Sha nextCommit"
    by (simp add: exampleCommit_def nextCommit_def)
  show ?thesis
    using C6_SaveCommit_drops_ref_index [OF exampleCommitCache_facts(1) sha, of "Key examplePipeline"]
      exampleCommitCache_facts sha
    by simp
qed

text \<open>
  Claim C10. When a commit is already stored for \<open>ref\<close>, \<open>SaveCommit\<close> leaves every field
  of the stored commit other than the branches and the tags unchanged: sha, author, date,
  message, head and statuses stay those of the stored commit, and those of the new
  commit are discarded, whether or not its sha is the stored one.
\<close>

theorem C10_SaveCommit_keeps_stored_fields:
  assumes "commitsByRef c ref = Some previous"
  shows "map_option Sha (commitsByRef (SaveCommit ref commit c) ref) = Some (Sha previous)
    \<and> map_option Author (commitsByRef (SaveCommit ref commit c) ref) = Some (Author previous)
    \<and> map_option Date (commitsByRef (SaveCommit ref commit c) ref) = Some (Date previous)
    \<and> map_option Message (commitsByRef (SaveCommit ref commit c) ref) = Some (Message previous)
    \<and> map_option Head (commitsByRef (SaveCommit ref commit c) ref) = Some (Head previous)
    \<and> map_option Statuses (commitsByRef (SaveCommit ref commit c) ref) = Some (Statuses previous)
    \<and> (\<exists>branches tags. commitsByRef (SaveCommit ref commit c) ref
          = Some (previous\<lparr>Branches := branches, Tags := tags\<rparr>))"
  using SaveCommit_Some [OF assms, of commit] by auto

text \<open>A save of a commit whose sha, message and statuses differ from the stored ones.\<close>

theorem C10_SaveCommit_keeps_stored_fields_witness:
  "commitsByRef exampleCommitCache ''master'' = Some exampleCommit
   \<and> Sha exampleCommit \<noteq> Sha nextCommit
   \<and> Message exampleCommit \<noteq> Message nextCommit
   \<and> Statuses exampleCommit \<noteq> Statuses nextCommit
   \<and> map_option Sha (commitsByRef (SaveCommit ''master'' nextCommit exampleCommitCache) ''master'')
       = Some ''c824642''
   \<and> map_option Author (commitsByRef (SaveCommit ''master'' nextCommit exampleCommitCache) ''master'')
       = Some ''nbedos''
   \<and> map_option Date (commitsByRef (SaveCommit ''master'' nextCommit exampleCommitCache) ''master'')
       = Some 3
   \<and> map_option Message (commitsByRef (SaveCommit ''master'' nextCommit exampleCommitCache) ''master'')
       = Some ''Fix tests''
   \<and> map_option Head (commitsByRef (SaveCommit ''master'' nextCommit exampleCommitCache) ''master'')
       = Some ''master''
   \<and> map_option Statuses (commitsByRef (SaveCommit ''master'' nextCommit exampleCommitCache) ''master'')
       = Some []"
proof -
  have vals: "Sha exampleCommit = ''c824642''" "Author exampleCommit = ''nbedos''"
    "Date exampleCommit = 3" "Message exampleCommit = ''Fix tests''"
    "Head exampleCommit = ''master''" "Statuses exampleCommit = []"
    "Sha exampleCommit \<noteq> Sha nextCommit" "Message exampleCommit \<noteq> Message nextCommit"
    "Statuses exampleCommit \<noteq> Statuses nextCommit"
    by (simp_all add: exampleCommit_def nextCommit_def)
  show ?thesis
    using C10_SaveCommit_keeps_stored_fields [OF exampleCommitCache_facts(1), of nextCommit]
      exampleCommitCache_facts(1) vals
    by simp
qed


lemma specMergeNames_distinct:
  "distinct incoming \<Longrightarrow>
   specMergeNames previous incoming = previous @ filter (\<lambda>b. b \<notin> set previous) incoming"
proof (induction incoming arbitrary: previous)
  case Nil
  then show ?case by simp
next
  case (Cons b bs)
  then have nb: "b \<notin> set bs" and d: "distinct bs" by simp_all
  show ?case
  proof (cases "b \<in> set previous")
    case True
    then show ?thesis using Cons.IH [OF d, of previous] by simp
  next
    case False
    have "filter (\<lambda>x. x \<notin> set (previous @ [b])) bs = filter (\<lambda>x. x \<notin> set previous) bs"
      using nb by (intro filter_cong) auto
    then show ?thesis using False Cons.IH [OF d, of "previous @ [b]"] by simp
  qed
qed

lemma mergeNames_props:
  "prefix previous (mergeNames previous incoming)"
  "set (mergeNames previous incoming) = set previous \<union> set incoming"
  "distinct previous \<Longrightarrow> distinct incoming \<Longrightarrow> distinct (mergeNames previous incoming)"
  by (auto simp: mergeNames_eq)

lemma SaveCommits_grow:
  assumes "commitsByRef c ref = Some previous"
  shows "\<exists>final. commitsByRef (SaveCommits ref commits c) ref = Some final
     \<and> prefix (Branches previous) (Branches final) \<and> prefix (Tags previous) (Tags final)
     \<and> set (Branches final) = set (Branches previous) \<union> (\<Union>cm\<in>set commits. set (Branches cm))
     \<and> set (Tags final) = set (Tags previous) \<union> (\<Union>cm\<in>set commits. set (Tags cm))
     \<and> (distinct (Branches previous) \<and> (\<forall>cm\<in>set commits. distinct (Branches cm))
           \<longrightarrow> distinct (Branches final))
     \<and> (distinct (Tags previous) \<and> (\<forall>cm\<in>set commits. distinct (Tags cm))
           \<longrightarrow> distinct (Tags final))"
  using assms
proof (induction commits arbitrary: c previous)
  case Nil
  then show ?case by (simp add: SaveCommits_def)
next
  case (Cons cm cms)
  let ?stored = "previous\<lparr>Branches := mergeNames (Branches previous) (Branches cm),
                   Tags := mergeNames (Tags previous) (Tags cm)\<rparr>"
  have st: "commitsByRef (SaveCommit ref cm c) ref = Some ?stored"
    by (rule SaveCommit_Some [OF Cons.prems])
  from Cons.IH [OF st] obtain final where
    f: "commitsByRef (SaveCommits ref cms (SaveCommit ref cm c)) ref = Some final"
    and pb: "prefix (Branches ?stored) (Branches final)"
    and pt: "prefix (Tags ?stored) (Tags final)"
    and sb: "set (Branches final) = set (Branches ?stored) \<union> (\<Union>x\<in>set cms. set (Branches x))"
    and stg: "set (Tags final) = set (Tags ?stored) \<union> (\<Union>x\<in>set cms. set (Tags x))"
    and db: "distinct (Branches ?stored) \<and> (\<forall>x\<in>set cms. distinct (Branches x))
               \<longrightarrow> distinct (Branches final)"
    and dt: "distinct (Tags ?stored) \<and> (\<forall>x\<in>set cms. distinct (Tags x))
               \<longrightarrow> distinct (Tags final)"
    by (elim exE conjE)
  have unfold: "SaveCommits ref (cm # cms) c = SaveCommits ref cms (SaveCommit ref cm c)"
    by (simp add: SaveCommits_def)
  have pb': "prefix (Branches previous) (Branches final)"
    using pb mergeNames_props(1) [of "Branches previous" "Branches cm"]
    by (auto intro: prefix_order.trans)
  have pt': "prefix (Tags previous) (Tags final)"
    using pt mergeNames_props(1) [of "Tags previous" "Tags cm"]
    by (auto intro: prefix_order.trans)
  have sb': "set (Branches final) = set (Branches previous) \<union> (\<Union>x\<in>set (cm # cms). set (Branches x))"
    using sb by (auto simp: mergeNames_props(2))
  have st': "set (Tags final) = set (Tags previous) \<union> (\<Union>x\<in>set (cm # cms). set (Tags x))"
    using stg by (auto simp: mergeNames_props(2))
  have db': "distinct (Branches previous) \<and> (\<forall>x\<in>set (cm # cms). distinct (Branches x))
               \<longrightarrow> distinct (Branches final)"
    using db mergeNames_props(3) [of "Branches previous" "Branches cm"] by simp
  have dt': "distinct (Tags previous) \<and> (\<forall>x\<in>set (cm # cms). distinct (Tags x))
               \<longrightarrow> distinct (Tags final)"
    using dt mergeNames_props(3) [of "Tags previous" "Tags cm"] by simp
  show ?case
    unfolding unfold
    by (intro exI [of _ final] conjI) (fact f, fact pb', fact pt', fact sb', fact st', fact db', fact dt')
qed

subsection \<open>The append loop on slices\<close>

lemma appendString_props:
  assumes v: "validSlice h p"
  shows "view (fst (appendString g h p b)) (snd (appendString g h p b)) = view h p @ [b]"
    and "validSlice (fst (appendString g h p b)) (snd (appendString g h p b))"
    and "length h \<le> length (fst (appendString g h p b))"
    and "a < length h \<Longrightarrow> length (arrayAt (fst (appendString g h p b)) a) = length (arrayAt h a)"
    and "a < length h \<Longrightarrow> a \<noteq> array p \<or> i < len p \<Longrightarrow>
           arrayAt (fst (appendString g h p b)) a ! i = arrayAt h a ! i"
    and "len (snd (appendString g h p b)) = len p + 1"
    and "array (snd (appendString g h p b)) = array p \<or> array (snd (appendString g h p b)) = length h"
proof -
  from v have a: "array p < length h" and l: "len p \<le> length (h ! array p)"
    by (auto simp add: validSlice_def cap_def arrayAt_def)
  show "view (fst (appendString g h p b)) (snd (appendString g h p b)) = view h p @ [b]"
    using a l by (simp add: appendString_def view_def cap_def arrayAt_def take_Suc_conv_app_nth)
  show "validSlice (fst (appendString g h p b)) (snd (appendString g h p b))"
    using a l by (simp add: appendString_def view_def cap_def arrayAt_def validSlice_def)
  show "length h \<le> length (fst (appendString g h p b))"
    by (simp add: appendString_def)
  show "length (arrayAt (fst (appendString g h p b)) a) = length (arrayAt h a)" if "a < length h"
    using that a by (simp add: appendString_def arrayAt_def cap_def nth_list_update nth_append)
  show "arrayAt (fst (appendString g h p b)) a ! i = arrayAt h a ! i"
    if "a < length h" "a \<noteq> array p \<or> i < len p"
    using that a by (auto simp add: appendString_def arrayAt_def cap_def nth_list_update nth_append)
  show "len (snd (appendString g h p b)) = len p + 1"
    by (simp add: appendString_def)
  show "array (snd (appendString g h p b)) = array p \<or> array (snd (appendString g h p b)) = length h"
    by (simp add: appendString_def)
qed

lemma appendAbsent_loop:
  assumes vi: "validSlice h0 inc"
    and disj: "array inc \<noteq> array p0 \<or> len inc \<le> len p0"
    and v: "validSlice h p"
    and le: "length h0 \<le> length h"
    and lens: "\<forall>a<length h0. length (arrayAt h a) = length (arrayAt h0 a)"
    and same: "\<forall>a i. a < length h0 \<and> (a \<noteq> array p0 \<or> i < len p0) \<longrightarrow>
                 arrayAt h a ! i = arrayAt h0 a ! i"
    and pos: "array p = array p0 \<and> len p0 \<le> len p \<or> length h0 \<le> array p"
    and idx: "\<forall>i\<in>set ixs. i < len inc"
    and r: "r = foldl (\<lambda>(h1, p) i.
              (let b = arrayAt h1 (array inc) ! i
               in if b \<in> S then (h1, p) else appendString g h1 p b)) (h, p) ixs"
  shows "validSlice (fst r) (snd r)
    \<and> length h0 \<le> length (fst r)
    \<and> (\<forall>a<length h0. length (arrayAt (fst r) a) = length (arrayAt h0 a))
    \<and> (\<forall>a i. a < length h0 \<and> (a \<noteq> array p0 \<or> i < len p0) \<longrightarrow>
                 arrayAt (fst r) a ! i = arrayAt h0 a ! i)
    \<and> view (fst r) (snd r) = view h p @ filter (\<lambda>b. b \<notin> S) (map (\<lambda>i. view h0 inc ! i) ixs)"
  using v le lens same pos idx r
proof (induction ixs arbitrary: h p r)
  case Nil
  then show ?case by simp
next
  case (Cons i ixs)
  let ?b = "arrayAt h (array inc) ! i"
  have i: "i < len inc" using Cons.prems(6) by simp
  have ai: "array inc < length h0" and li: "len inc \<le> length (arrayAt h0 (array inc))"
    using vi by (simp_all add: validSlice_def cap_def)
  have "array inc \<noteq> array p0 \<or> i < len p0" using disj i by auto
  with ai Cons.prems(4) have "?b = arrayAt h0 (array inc) ! i" by blast
  also have "\<dots> = view h0 inc ! i" using i by (simp add: view_def)
  finally have b: "?b = view h0 inc ! i" .
  show ?case
  proof (cases "?b \<in> S")
    case True
    then have r: "r = foldl (\<lambda>(h1, p) i.
              (let b = arrayAt h1 (array inc) ! i
               in if b \<in> S then (h1, p) else appendString g h1 p b)) (h, p) ixs"
      using Cons.prems(7) by simp
    from Cons.IH [OF Cons.prems(1-5) _ r] Cons.prems(6) True b show ?thesis by simp
  next
    case False
    let ?h = "fst (appendString g h p ?b)" and ?p = "snd (appendString g h p ?b)"
    note st = appendString_props [OF Cons.prems(1), where g = g and b = "?b"]
    have r: "r = foldl (\<lambda>(h1, p) i.
              (let b = arrayAt h1 (array inc) ! i
               in if b \<in> S then (h1, p) else appendString g h1 p b)) (?h, ?p) ixs"
      using Cons.prems(7) False by simp
    have le': "length h0 \<le> length ?h" using st(3) Cons.prems(2) by simp
    have lens': "\<forall>a<length h0. length (arrayAt ?h a) = length (arrayAt h0 a)"
      using st(4) Cons.prems(2,3) by simp
    have same': "\<forall>a i. a < length h0 \<and> (a \<noteq> array p0 \<or> i < len p0) \<longrightarrow>
                 arrayAt ?h a ! i = arrayAt h0 a ! i"
    proof (intro allI impI)
      fix a j assume aj: "a < length h0 \<and> (a \<noteq> array p0 \<or> j < len p0)"
      then have "a < length h" using Cons.prems(2) by simp
      moreover have "a \<noteq> array p \<or> j < len p" using aj Cons.prems(5) by auto
      ultimately have "arrayAt ?h a ! j = arrayAt h a ! j" by (rule st(5))
      with aj Cons.prems(4) show "arrayAt ?h a ! j = arrayAt h0 a ! j" by simp
    qed
    have pos': "array ?p = array p0 \<and> len p0 \<le> len ?p \<or> length h0 \<le> array ?p"
      using st(6,7) Cons.prems(2,5) by auto
    from Cons.IH [OF st(2) le' lens' same' pos' _ r] Cons.prems(6) False b st(1)
    show ?thesis by simp
  qed
qed

lemma view_unchanged:
  assumes vs: "validSlice h0 s"
    and lens: "\<forall>a<length h0. length (arrayAt h a) = length (arrayAt h0 a)"
    and same: "\<forall>a i. a < length h0 \<and> (a \<noteq> array p0 \<or> i < len p0) \<longrightarrow>
                 arrayAt h a ! i = arrayAt h0 a ! i"
    and le: "length h0 \<le> length h"
    and ok: "array s \<noteq> array p0 \<or> len s \<le> len p0"
  shows "view h s = view h0 s" and "validSlice h s"
proof -
  have a: "array s < length h0" and l: "len s \<le> length (arrayAt h0 (array s))"
    using vs by (simp_all add: validSlice_def cap_def)
  have ll: "length (arrayAt h (array s)) = length (arrayAt h0 (array s))" using lens a by simp
  show "validSlice h s" using a l ll le by (simp add: validSlice_def cap_def)
  show "view h s = view h0 s"
    unfolding view_def
  proof (rule nth_equalityI)
    show "length (take (len s) (arrayAt h (array s))) = length (take (len s) (arrayAt h0 (array s)))"
      using ll by simp
  next
    fix i assume "i < length (take (len s) (arrayAt h (array s)))"
    then have i: "i < len s" by simp
    then have "array s \<noteq> array p0 \<or> i < len p0" using ok by auto
    with a same have "arrayAt h (array s) ! i = arrayAt h0 (array s) ! i" by blast
    with i show "take (len s) (arrayAt h (array s)) ! i = take (len s) (arrayAt h0 (array s)) ! i"
      by simp
  qed
qed

lemma appendAbsent_refines:
  assumes vp: "validSlice h previous" and vi: "validSlice h incoming"
    and disj: "array incoming \<noteq> array previous \<or> len incoming \<le> len previous"
  shows "view (fst (appendAbsent g h previous incoming)) (snd (appendAbsent g h previous incoming))
           = mergeNames (view h previous) (view h incoming)"
    and "validSlice (fst (appendAbsent g h previous incoming)) (snd (appendAbsent g h previous incoming))"
    and "validSlice h s \<Longrightarrow> array s \<noteq> array previous \<or> len s \<le> len previous \<Longrightarrow>
           validSlice (fst (appendAbsent g h previous incoming)) s
           \<and> view (fst (appendAbsent g h previous incoming)) s = view h s"
proof -
  let ?r = "appendAbsent g h previous incoming"
  have r: "?r = foldl (\<lambda>(h1, p) i.
              (let b = arrayAt h1 (array incoming) ! i
               in if b \<in> set (view h previous) then (h1, p) else appendString g h1 p b))
            (h, previous) [0..<len incoming]"
    by (simp add: appendAbsent_def)
  have loop: "validSlice (fst ?r) (snd ?r)
    \<and> length h \<le> length (fst ?r)
    \<and> (\<forall>a<length h. length (arrayAt (fst ?r) a) = length (arrayAt h a))
    \<and> (\<forall>a i. a < length h \<and> (a \<noteq> array previous \<or> i < len previous) \<longrightarrow>
                 arrayAt (fst ?r) a ! i = arrayAt h a ! i)
    \<and> view (fst ?r) (snd ?r) = view h previous
         @ filter (\<lambda>b. b \<notin> set (view h previous)) (map (\<lambda>i. view h incoming ! i) [0..<len incoming])"
    by (rule appendAbsent_loop [OF vi disj vp _ _ _ _ _ r]) simp_all
  have "length (view h incoming) = len incoming"
    using vi by (simp add: view_def validSlice_def cap_def)
  then have "map (\<lambda>i. view h incoming ! i) [0..<len incoming] = view h incoming"
    by (metis map_nth)
  with loop show "view (fst ?r) (snd ?r) = mergeNames (view h previous) (view h incoming)"
    by (simp add: mergeNames_eq)
  show "validSlice (fst ?r) (snd ?r)" using loop by simp
  show "validSlice (fst ?r) s \<and> view (fst ?r) s = view h s"
    if "validSlice h s" "array s \<noteq> array previous \<or> len s \<le> len previous"
    using view_unchanged [OF that(1) _ _ _ that(2), of "fst ?r"] loop by simp
qed

text \<open>
  Claim C7, amended. The first save for a ref stores the branch list and the tag list
  as given. Every later save appends to the stored branch list, in their order and
  once for each occurrence, exactly the incoming entries whose name is not in the
  stored list before the save, and likewise for the tags; nothing is removed or
  reordered. When the incoming list has no repeated name, a save yields the merge of
  the specification, which appends each absent name once. Over any sequence of saves
  for the ref the list stored at the start is a prefix of the final one, whose names
  are those stored at the start and those that came in, and the final list has no
  repeated name when neither the list stored at the start nor any incoming list has
  one.

  These lists are what the append loop of the code computes on slices when the
  incoming slice is on another array than the stored slice or is no longer than it:
  the loop returns a valid slice whose contents are the merged list, and it leaves the
  contents of every slice that is on another array, or is no longer than the stored
  slice, as they were. Nothing is stated about a longer slice on the array of the
  stored slice.
\<close>

theorem C7_SaveCommit_merges_names:
  "(commitsByRef c ref = None \<longrightarrow> commitsByRef (SaveCommit ref commit c) ref = Some commit)
   \<and> (commitsByRef c ref = Some previous \<longrightarrow>
        map_option Branches (commitsByRef (SaveCommit ref commit c) ref)
          = Some (Branches previous @ filter (\<lambda>b. b \<notin> set (Branches previous)) (Branches commit))
        \<and> map_option Tags (commitsByRef (SaveCommit ref commit c) ref)
          = Some (Tags previous @ filter (\<lambda>t. t \<notin> set (Tags previous)) (Tags commit))
        \<and> (distinct (Branches commit) \<longrightarrow>
              map_option Branches (commitsByRef (SaveCommit ref commit c) ref)
                = Some (specMergeNames (Branches previous) (Branches commit)))
        \<and> (distinct (Tags commit) \<longrightarrow>
              map_option Tags (commitsByRef (SaveCommit ref commit c) ref)
                = Some (specMergeNames (Tags previous) (Tags commit)))
        \<and> (\<exists>final. commitsByRef (SaveCommits ref commits c) ref = Some final
              \<and> prefix (Branches previous) (Branches final)
              \<and> prefix (Tags previous) (Tags final)
              \<and> set (Branches final)
                  = set (Branches previous) \<union> (\<Union>cm\<in>set commits. set (Branches cm))
              \<and> set (Tags final)
                  = set (Tags previous) \<union> (\<Union>cm\<in>set commits. set (Tags cm))
              \<and> (distinct (Branches previous) \<and> (\<forall>cm\<in>set commits. distinct (Branches cm))
                    \<longrightarrow> distinct (Branches final))
              \<and> (distinct (Tags previous) \<and> (\<forall>cm\<in>set commits. distinct (Tags cm))
                    \<longrightarrow> distinct (Tags final))))
   \<and> (validSlice h stored \<and> validSlice h incoming
        \<and> (array incoming \<noteq> array stored \<or> len incoming \<le> len stored) \<longrightarrow>
        view (fst (appendAbsent g h stored incoming)) (snd (appendAbsent g h stored incoming))
          = mergeNames (view h stored) (view h incoming)
        \<and> mergeNames (view h stored) (view h incoming)
          = view h stored @ filter (\<lambda>b. b \<notin> set (view h stored)) (view h incoming)
        \<and> validSlice (fst (appendAbsent g h stored incoming)) (snd (appendAbsent g h stored incoming))
        \<and> (\<forall>s. validSlice h s \<and> (array s \<noteq> array stored \<or> len s \<le> len stored) \<longrightarrow>
              validSlice (fst (appendAbsent g h stored incoming)) s
              \<and> view (fst (appendAbsent g h stored incoming)) s = view h s))"
proof (intro conjI impI allI)
  assume "commitsByRef c ref = None"
  then show "commitsByRef (SaveCommit ref commit c) ref = Some commit"
    by (rule SaveCommit_None)
next
  assume p: "commitsByRef c ref = Some previous"
  show b: "map_option Branches (commitsByRef (SaveCommit ref commit c) ref)
          = Some (Branches previous @ filter (\<lambda>b. b \<notin> set (Branches previous)) (Branches commit))"
    by (simp add: SaveCommit_Some [OF p] mergeNames_eq)
  show t: "map_option Tags (commitsByRef (SaveCommit ref commit c) ref)
          = Some (Tags previous @ filter (\<lambda>t. t \<notin> set (Tags previous)) (Tags commit))"
    by (simp add: SaveCommit_Some [OF p] mergeNames_eq)
  show "map_option Branches (commitsByRef (SaveCommit ref commit c) ref)
                = Some (specMergeNames (Branches previous) (Branches commit))"
    if "distinct (Branches commit)"
    using b specMergeNames_distinct [OF that, of "Branches previous"] by simp
  show "map_option Tags (commitsByRef (SaveCommit ref commit c) ref)
                = Some (specMergeNames (Tags previous) (Tags commit))"
    if "distinct (Tags commit)"
    using t specMergeNames_distinct [OF that, of "Tags previous"] by simp
  show "\<exists>final. commitsByRef (SaveCommits ref commits c) ref = Some final
              \<and> prefix (Branches previous) (Branches final)
              \<and> prefix (Tags previous) (Tags final)
              \<and> set (Branches final)
                  = set (Branches previous) \<union> (\<Union>cm\<in>set commits. set (Branches cm))
              \<and> set (Tags final)
                  = set (Tags previous) \<union> (\<Union>cm\<in>set commits. set (Tags cm))
              \<and> (distinct (Branches previous) \<and> (\<forall>cm\<in>set commits. distinct (Branches cm))
                    \<longrightarrow> distinct (Branches final))
              \<and> (distinct (Tags previous) \<and> (\<forall>cm\<in>set commits. distinct (Tags cm))
                    \<longrightarrow> distinct (Tags final))"
    by (rule SaveCommits_grow [OF p])
next
  assume a: "validSlice h stored \<and> validSlice h incoming
        \<and> (array incoming \<noteq> array stored \<or> len incoming \<le> len stored)"
  then have vp: "validSlice h stored" and vi: "validSlice h incoming"
    and disj: "array incoming \<noteq> array stored \<or> len incoming \<le> len stored"
    by simp_all
  show "view (fst (appendAbsent g h stored incoming)) (snd (appendAbsent g h stored incoming))
          = mergeNames (view h stored) (view h incoming)"
    by (rule appendAbsent_refines(1) [OF vp vi disj])
  show "mergeNames (view h stored) (view h incoming)
          = view h stored @ filter (\<lambda>b. b \<notin> set (view h stored)) (view h incoming)"
    by (rule mergeNames_eq)
  show "validSlice (fst (appendAbsent g h stored incoming)) (snd (appendAbsent g h stored incoming))"
    by (rule appendAbsent_refines(2) [OF vp vi disj])
  show "validSlice (fst (appendAbsent g h stored incoming)) s"
    if "validSlice h s \<and> (array s \<noteq> array stored \<or> len s \<le> len stored)" for s
    using appendAbsent_refines(3) [OF vp vi disj, of s g] that by simp
  show "view (fst (appendAbsent g h stored incoming)) s = view h s"
    if "validSlice h s \<and> (array s \<noteq> array stored \<or> len s \<le> len stored)" for s
    using appendAbsent_refines(3) [OF vp vi disj, of s g] that by simp
qed

text \<open>
  A first save, a save of a commit with no repeated names, two sequences of two saves,
  an append in place and an append that allocates.
\<close>

theorem C7_SaveCommit_merges_names_witness:
  "commitsByRef (NewCache []) ''master'' = None
   \<and> commitsByRef (SaveCommit ''master'' exampleCommit (NewCache [])) ''master'' = Some exampleCommit
   \<and> commitsByRef exampleCommitCache ''master'' = Some exampleCommit
   \<and> distinct (Branches thirdCommit) \<and> distinct (Tags thirdCommit)
   \<and> map_option Branches (commitsByRef (SaveCommit ''master'' thirdCommit exampleCommitCache) ''master'')
       = Some [''master'', ''feature'']
   \<and> map_option Tags (commitsByRef (SaveCommit ''master'' thirdCommit exampleCommitCache) ''master'')
       = Some [''v1'', ''v2'']
   \<and> specMergeNames (Branches exampleCommit) (Branches thirdCommit) = [''master'', ''feature'']
   \<and> (\<exists>final. commitsByRef (SaveCommits ''master'' [nextCommit, thirdCommit] exampleCommitCache) ''master''
          = Some final
        \<and> prefix (Branches exampleCommit) (Branches final)
        \<and> prefix (Tags exampleCommit) (Tags final)
        \<and> set (Branches final) = {''master'', ''dev'', ''feature''}
        \<and> set (Tags final) = {''v1'', ''v2''})
   \<and> distinct (Branches exampleCommit) \<and> distinct (Tags exampleCommit)
   \<and> (\<exists>final. commitsByRef (SaveCommits ''master'' [thirdCommit, exampleCommit] exampleCommitCache) ''master''
          = Some final
        \<and> distinct (Branches final) \<and> distinct (Tags final))
   \<and> validSlice branchHeap storedBranches \<and> validSlice branchHeap fixBranches
   \<and> validSlice branchHeap hotfixBranches
   \<and> array fixBranches \<noteq> array storedBranches
   \<and> view (fst (appendAbsent doubling branchHeap storedBranches fixBranches))
        (snd (appendAbsent doubling branchHeap storedBranches fixBranches))
       = [''master'', ''dev'', ''feature'', ''fix'']
   \<and> validSlice (fst (appendAbsent doubling branchHeap storedBranches fixBranches))
        (snd (appendAbsent doubling branchHeap storedBranches fixBranches))
   \<and> view (fst (appendAbsent doubling branchHeap storedBranches fixBranches)) hotfixBranches
       = [''hotfix'']
   \<and> view (fst (appendAbsent doubling branchHeap fixBranches storedBranches))
        (snd (appendAbsent doubling branchHeap fixBranches storedBranches))
       = [''fix'', ''master'', ''dev'', ''feature'']
   \<and> view (fst (appendAbsent doubling branchHeap fixBranches storedBranches)) storedBranches
       = [''master'', ''dev'', ''feature'']"
proof -
  note first = C7_SaveCommit_merges_names
    [where c = "NewCache []" and ref = "''master''" and commit = exampleCommit
       and previous = exampleCommit and commits = "[]" and h = branchHeap
       and stored = storedBranches and incoming = fixBranches and g = doubling]
  note later = C7_SaveCommit_merges_names
    [where c = exampleCommitCache and ref = "''master''" and commit = thirdCommit
       and previous = exampleCommit and commits = "[nextCommit, thirdCommit]" and h = branchHeap
       and stored = fixBranches and incoming = storedBranches and g = doubling]
  note again = C7_SaveCommit_merges_names
    [where c = exampleCommitCache and ref = "''master''" and commit = thirdCommit
       and previous = exampleCommit and commits = "[thirdCommit, exampleCommit]" and h = branchHeap
       and stored = fixBranches and incoming = storedBranches and g = doubling]
  have none: "commitsByRef (NewCache []) ''master'' = None"
    by (simp add: NewCache_def)
  have some: "commitsByRef exampleCommitCache ''master'' = Some exampleCommit"
    by (rule exampleCommitCache_facts(1))
  have d: "distinct (Branches thirdCommit)" "distinct (Tags thirdCommit)"
    by (simp_all add: thirdCommit_def)
  have de: "distinct (Branches exampleCommit)" "distinct (Tags exampleCommit)"
    by (simp_all add: exampleCommit_def)
  have a: "commitsByRef (SaveCommit ''master'' exampleCommit (NewCache [])) ''master'' = Some exampleCommit"
    using first [THEN conjunct1] none by (rule mp)
  note rest = mp [OF later [THEN conjunct2, THEN conjunct1] some]
  have b: "map_option Branches (commitsByRef (SaveCommit ''master'' thirdCommit exampleCommitCache) ''master'')
       = Some [''master'', ''feature'']"
    using rest [THEN conjunct1] by (simp add: exampleCommit_def thirdCommit_def)
  have t: "map_option Tags (commitsByRef (SaveCommit ''master'' thirdCommit exampleCommitCache) ''master'')
       = Some [''v1'', ''v2'']"
    using rest [THEN conjunct2, THEN conjunct1] by (simp add: exampleCommit_def thirdCommit_def)
  have s: "specMergeNames (Branches exampleCommit) (Branches thirdCommit) = [''master'', ''feature'']"
    using mp [OF rest [THEN conjunct2, THEN conjunct2, THEN conjunct1] d(1)] b by simp
  have sets: "set (Branches exampleCommit) \<union> (\<Union>cm\<in>set [nextCommit, thirdCommit]. set (Branches cm))
        = {''master'', ''dev'', ''feature''}"
      "set (Tags exampleCommit) \<union> (\<Union>cm\<in>set [nextCommit, thirdCommit]. set (Tags cm))
        = {''v1'', ''v2''}"
    by (auto simp: exampleCommit_def nextCommit_def thirdCommit_def)
  from rest [THEN conjunct2, THEN conjunct2, THEN conjunct2, THEN conjunct2]
  obtain final where
    "commitsByRef (SaveCommits ''master'' [nextCommit, thirdCommit] exampleCommitCache) ''master''
          = Some final"
    "prefix (Branches exampleCommit) (Branches final)"
    "prefix (Tags exampleCommit) (Tags final)"
    "set (Branches final)
       = set (Branches exampleCommit) \<union> (\<Union>cm\<in>set [nextCommit, thirdCommit]. set (Branches cm))"
    "set (Tags final)
       = set (Tags exampleCommit) \<union> (\<Union>cm\<in>set [nextCommit, thirdCommit]. set (Tags cm))"
    by (elim exE conjE)
  then have q: "\<exists>final. commitsByRef (SaveCommits ''master'' [nextCommit, thirdCommit] exampleCommitCache) ''master''
          = Some final
        \<and> prefix (Branches exampleCommit) (Branches final)
        \<and> prefix (Tags exampleCommit) (Tags final)
        \<and> set (Branches final) = {''master'', ''dev'', ''feature''}
        \<and> set (Tags final) = {''v1'', ''v2''}"
    unfolding sets by (intro exI [of _ final] conjI)
  have all: "\<forall>cm\<in>set [thirdCommit, exampleCommit]. distinct (Branches cm)"
    "\<forall>cm\<in>set [thirdCommit, exampleCommit]. distinct (Tags cm)"
    using d de by simp_all
  from mp [OF again [THEN conjunct2, THEN conjunct1] some,
      THEN conjunct2, THEN conjunct2, THEN conjunct2, THEN conjunct2]
  obtain final2 where
    f2: "commitsByRef (SaveCommits ''master'' [thirdCommit, exampleCommit] exampleCommitCache) ''master''
          = Some final2"
    and db: "distinct (Branches exampleCommit) \<and> (\<forall>cm\<in>set [thirdCommit, exampleCommit]. distinct (Branches cm))
               \<longrightarrow> distinct (Branches final2)"
    and dt: "distinct (Tags exampleCommit) \<and> (\<forall>cm\<in>set [thirdCommit, exampleCommit]. distinct (Tags cm))
               \<longrightarrow> distinct (Tags final2)"
    by (elim exE conjE)
  have "distinct (Branches final2)" using db de(1) all(1) by blast
  moreover have "distinct (Tags final2)" using dt de(2) all(2) by blast
  ultimately have q2: "\<exists>final. commitsByRef (SaveCommits ''master'' [thirdCommit, exampleCommit] exampleCommitCache) ''master''
          = Some final
        \<and> distinct (Branches final) \<and> distinct (Tags final)"
    using f2 by (intro exI [of _ final2] conjI)
  have v: "validSlice branchHeap storedBranches" "validSlice branchHeap fixBranches"
    "validSlice branchHeap hotfixBranches"
    by (simp_all add: validSlice_def cap_def arrayAt_def branchHeap_def storedBranches_def
        fixBranches_def hotfixBranches_def)
  have ne: "array fixBranches \<noteq> array storedBranches"
    by (simp add: storedBranches_def fixBranches_def)
  have views: "view branchHeap storedBranches = [''master'', ''dev'', ''feature'']"
    "view branchHeap fixBranches = [''fix'']" "view branchHeap hotfixBranches = [''hotfix'']"
    by (simp_all add: view_def arrayAt_def branchHeap_def storedBranches_def
        fixBranches_def hotfixBranches_def)
  have hyp1: "validSlice branchHeap storedBranches \<and> validSlice branchHeap fixBranches
        \<and> (array fixBranches \<noteq> array storedBranches \<or> len fixBranches \<le> len storedBranches)"
    using v ne by simp
  have hyp2: "validSlice branchHeap fixBranches \<and> validSlice branchHeap storedBranches
        \<and> (array storedBranches \<noteq> array fixBranches \<or> len storedBranches \<le> len fixBranches)"
    using v ne by simp
  note place = mp [OF first [THEN conjunct2, THEN conjunct2] hyp1]
  note alloc = mp [OF later [THEN conjunct2, THEN conjunct2] hyp2]
  have p1: "view (fst (appendAbsent doubling branchHeap storedBranches fixBranches))
        (snd (appendAbsent doubling branchHeap storedBranches fixBranches))
       = [''master'', ''dev'', ''feature'', ''fix'']"
    using place [THEN conjunct1] by (simp add: views mergeNames_def)
  have p2: "validSlice (fst (appendAbsent doubling branchHeap storedBranches fixBranches))
        (snd (appendAbsent doubling branchHeap storedBranches fixBranches))"
    by (rule place [THEN conjunct2, THEN conjunct2, THEN conjunct1])
  have other: "validSlice branchHeap hotfixBranches
      \<and> (array hotfixBranches \<noteq> array storedBranches \<or> len hotfixBranches \<le> len storedBranches)"
    using v by (simp add: storedBranches_def hotfixBranches_def)
  have p3: "view (fst (appendAbsent doubling branchHeap storedBranches fixBranches)) hotfixBranches
       = [''hotfix'']"
    using place [THEN conjunct2, THEN conjunct2, THEN conjunct2, THEN spec, of hotfixBranches] other
    by (simp add: views)
  have p4: "view (fst (appendAbsent doubling branchHeap fixBranches storedBranches))
        (snd (appendAbsent doubling branchHeap fixBranches storedBranches))
       = [''fix'', ''master'', ''dev'', ''feature'']"
    using alloc [THEN conjunct1] by (simp add: views mergeNames_def)
  have other2: "validSlice branchHeap storedBranches
      \<and> (array storedBranches \<noteq> array fixBranches \<or> len storedBranches \<le> len fixBranches)"
    using v ne by simp
  have p5: "view (fst (appendAbsent doubling branchHeap fixBranches storedBranches)) storedBranches
       = [''master'', ''dev'', ''feature'']"
    using alloc [THEN conjunct2, THEN conjunct2, THEN conjunct2, THEN spec, of storedBranches] other2
    by (simp add: views)
  show ?thesis
    by (intro conjI) (fact none, fact a, fact some, fact d(1), fact d(2), fact b, fact t, fact s,
        fact q, fact de(1), fact de(2), fact q2, fact v(1), fact v(2), fact v(3), fact ne,
        fact p1, fact p2, fact p3, fact p4, fact p5)
qed

text \<open>
  Claim C7, as stated, fails. A name that occurs twice in the incoming list and is not
  stored yet is appended twice, and a first save stores a list with a repeated name as
  it is, so the stored list is not free of duplicates. And an existing entry can be
  replaced: when the lists stored for two refs are copies of one list whose array has
  room, a save for the first ref appends the name fix in place, and a save for the
  second ref then writes the name hotfix over it, in the list of the first ref too.
\<close>

theorem C7_incoming_duplicates_counterexample:
  "commitsByRef exampleCommitCache ''master'' = Some exampleCommit
   \<and> Branches exampleCommit = [''master''] \<and> Branches nextCommit = [''dev'', ''dev'']
   \<and> map_option Branches (commitsByRef (SaveCommit ''master'' nextCommit exampleCommitCache) ''master'')
       = Some [''master'', ''dev'', ''dev'']
   \<and> specMergeNames (Branches exampleCommit) (Branches nextCommit) = [''master'', ''dev'']
   \<and> \<not> distinct [''master'', ''dev'', ''dev'']
   \<and> map_option Branches (commitsByRef (SaveCommit ''master'' nextCommit (NewCache [])) ''master'')
       = Some [''dev'', ''dev'']
   \<and> view branchHeap storedBranches = [''master'', ''dev'', ''feature'']
   \<and> view (fst afterFix) (snd afterFix) = [''master'', ''dev'', ''feature'', ''fix'']
   \<and> view (fst afterFix) storedBranches = [''master'', ''dev'', ''feature'']
   \<and> view (fst afterHotfix) (snd afterHotfix) = [''master'', ''dev'', ''feature'', ''hotfix'']
   \<and> view (fst afterHotfix) (snd afterFix) = [''master'', ''dev'', ''feature'', ''hotfix'']"
proof -
  have one: "[0..<1] = [0]" by (simp add: upt_rec)
  have fix_run: "afterFix
      = ([[''master'', ''dev'', ''feature'', ''fix''], [''fix''], [''hotfix'']], \<lparr>array = 0, len = 4\<rparr>)"
    by (simp add: afterFix_def appendAbsent_def appendString_def arrayAt_def cap_def view_def
        branchHeap_def storedBranches_def fixBranches_def one Let_def)
  have hotfix_run: "afterHotfix
      = ([[''master'', ''dev'', ''feature'', ''hotfix''], [''fix''], [''hotfix'']], \<lparr>array = 0, len = 4\<rparr>)"
    by (simp add: afterHotfix_def fix_run appendAbsent_def appendString_def arrayAt_def cap_def
        view_def storedBranches_def hotfixBranches_def one Let_def)
  show ?thesis
    by (simp add: exampleCommitCache_facts(1) SaveCommit_def Let_def mergeNames_def
        exampleCommit_def nextCommit_def NewCache_def fix_run hotfix_run view_def arrayAt_def
        branchHeap_def storedBranches_def)
qed

section \<open>Projection into tasks\<close>

lemma setStepID_filled:
  "setStepID (map (NullString True) pre @ replicate n (NullString False [])) i =
     (if n = 0 then None
      else Some (map (NullString True) (pre @ [i]) @ replicate (n - 1) (NullString False [])))"
proof (induction pre)
  case Nil
  then show ?case by (cases n) simp_all
next
  case (Cons a pre)
  then show ?case by simp
qed

lemma setStepID_pathArray:
  assumes "length pre \<le> maxStepIDs"
  shows "setStepID (pathArray pre) i =
     (if length pre < maxStepIDs then Some (pathArray (pre @ [i])) else None)"
proof -
  have "maxStepIDs - length pre - 1 = maxStepIDs - length (pre @ [i])" by simp
  then show ?thesis
    using assms unfolding pathArray_def setStepID_filled by auto
qed

lemma collect_Inl:
  "\<exists>x\<in>set xs. isl (f x) \<Longrightarrow> collect (map f xs) = Inl ExceededMaximumNestingDepth"
proof (induction xs)
  case Nil
  then show ?case by simp
next
  case (Cons x xs)
  show ?case
  proof (cases "f x")
    case (Inl e)
    then show ?thesis by (cases e) simp
  next
    case (Inr t)
    with Cons show ?thesis by auto
  qed
qed

lemma collect_Inr:
  "\<forall>x\<in>set xs. f x = Inr (g x) \<Longrightarrow> collect (map f xs) = Inr (map g xs)"
  by (induction xs) simp_all

lemma taskFromStep_paths:
  assumes "stepIDs key = pathArray pre" and "length pre \<le> maxStepIDs"
  shows "if \<forall>path\<in>set (stepPaths pre s). length path \<le> maxStepIDs
         then \<exists>t. taskFromStep s ref key provider number = Inr t
                \<and> taskKeys t = map (\<lambda>path. key\<lparr>stepIDs := pathArray path\<rparr>) (stepPaths pre s)
         else taskFromStep s ref key provider number = Inl ExceededMaximumNestingDepth"
  using assms
proof (induction s arbitrary: key pre)
  case (Step i nm ty st af cr sa fi up du wu lg ch)
  let ?key' = "key\<lparr>stepIDs := pathArray (pre @ [i])\<rparr>"
  let ?f = "\<lambda>childStep. taskFromStep childStep ref ?key' provider number"
  show ?case
  proof (cases "length pre < maxStepIDs")
    case False
    then have "setStepID (stepIDs key) i = None"
      using Step.prems by (simp add: setStepID_pathArray)
    moreover have "\<not> (\<forall>path\<in>set (stepPaths pre (Step i nm ty st af cr sa fi up du wu lg ch)).
        length path \<le> maxStepIDs)"
      using False by simp
    ultimately show ?thesis by simp
  next
    case True
    then have set: "setStepID (stepIDs key) i = Some (pathArray (pre @ [i]))"
      using Step.prems by (simp add: setStepID_pathArray)
    have k': "stepIDs ?key' = pathArray (pre @ [i])" "length (pre @ [i]) \<le> maxStepIDs"
      using True by simp_all
    have ih: "if \<forall>path\<in>set (stepPaths (pre @ [i]) c). length path \<le> maxStepIDs
         then \<exists>t. ?f c = Inr t
                \<and> taskKeys t = map (\<lambda>path. ?key'\<lparr>stepIDs := pathArray path\<rparr>) (stepPaths (pre @ [i]) c)
         else ?f c = Inl ExceededMaximumNestingDepth" if "c \<in> set ch" for c
      using Step.IH [OF that k'] .
    show ?thesis
    proof (cases "\<forall>c\<in>set ch. \<forall>path\<in>set (stepPaths (pre @ [i]) c). length path \<le> maxStepIDs")
      case True
      define g where "g c = projr (?f c)" for c
      have each: "?f c = Inr (g c) \<and>
          taskKeys (g c) = map (\<lambda>path. key\<lparr>stepIDs := pathArray path\<rparr>) (stepPaths (pre @ [i]) c)"
        if "c \<in> set ch" for c
        using ih [OF that] True that by (auto simp: g_def)
      then have col: "collect (map ?f ch) = Inr (map g ch)"
        by (intro collect_Inr) simp
      have keys: "concat (map taskKeys (map g ch))
          = map (\<lambda>path. key\<lparr>stepIDs := pathArray path\<rparr>) (concat (map (stepPaths (pre @ [i])) ch))"
        using each by (induction ch) simp_all
      have all: "\<forall>path\<in>set (stepPaths pre (Step i nm ty st af cr sa fi up du wu lg ch)).
          length path \<le> maxStepIDs"
        using True \<open>length pre < maxStepIDs\<close> by auto
      show ?thesis
        using all set col keys by (simp del: set_concat)
    next
      case False
      then obtain c where c: "c \<in> set ch"
        and "\<not> (\<forall>path\<in>set (stepPaths (pre @ [i]) c). length path \<le> maxStepIDs)"
        by blast
      with ih [OF c] have "?f c = Inl ExceededMaximumNestingDepth" by simp
      with c have "\<exists>x\<in>set ch. isl (?f x)" by force
      then have col: "collect (map ?f ch) = Inl ExceededMaximumNestingDepth"
        by (rule collect_Inl)
      have "\<not> (\<forall>path\<in>set (stepPaths pre (Step i nm ty st af cr sa fi up du wu lg ch)).
          length path \<le> maxStepIDs)"
        using False by auto
      then show ?thesis
        using set col by (simp del: set_concat)
    qed
  qed
qed


lemma validPrefix_pathArray:
  assumes "length path \<le> maxStepIDs"
  shows "validPrefix (pathArray path) = path"
proof -
  have "takeWhile NullString.Valid (map (NullString True) path @ replicate n (NullString False []))
      = map (NullString True) path" for n
  proof (induction path)
    case Nil
    show ?case by (cases n) simp_all
  next
    case (Cons a path)
    then show ?case by simp
  qed
  then show ?thesis
    by (simp add: validPrefix_def pathArray_def comp_def)
qed

lemma taskFromPipeline_step:
  "taskFromPipeline p providerByID =
     taskFromStep (step p) (gitReference p)
       \<lparr>key_providerHost = providerHost p, stepIDs = pathArray []\<rparr>
       (case providerByID (providerID p) of Some provider \<Rightarrow> ci_Name provider | None \<Rightarrow> ''unknown'')
       (if AtoiOk (if Number p = [] then Step.ID (step p) else Number p)
        then ''#'' @ (if Number p = [] then Step.ID (step p) else Number p)
        else (if Number p = [] then Step.ID (step p) else Number p))"
  by (simp add: taskFromPipeline_def Let_def pathArray_def)

text \<open>
  Claim C8. The cap on the number of identifiers of a path is \<open>maxStepIDs = 10\<close>. The
  projection of a pipeline panics if and only if some step of its tree has a path from
  the root, the root's identifier included, of more than ten identifiers. When it
  returns, no path exceeds the cap, the key of every task is the array filled with the
  whole path of its step, and the identifiers read back from the key are that path:
  nothing is truncated.
\<close>

theorem C8_taskFromPipeline_depth_cap:
  "maxStepIDs = 10
   \<and> (taskFromPipeline p providerByID = Inl ExceededMaximumNestingDepth
        \<longleftrightarrow> (\<exists>path\<in>set (stepPaths [] (step p)). maxStepIDs < length path))
   \<and> (\<forall>t. taskFromPipeline p providerByID = Inr t \<longrightarrow>
          (\<forall>path\<in>set (stepPaths [] (step p)). length path \<le> maxStepIDs)
          \<and> map stepIDs (taskKeys t) = map pathArray (stepPaths [] (step p))
          \<and> map (\<lambda>k. validPrefix (stepIDs k)) (taskKeys t) = stepPaths [] (step p))"
proof -
  let ?key = "\<lparr>key_providerHost = providerHost p, stepIDs = pathArray []\<rparr>"
  have main: "if \<forall>path\<in>set (stepPaths [] (step p)). length path \<le> maxStepIDs
         then \<exists>t. taskFromPipeline p providerByID = Inr t
                \<and> taskKeys t = map (\<lambda>path. ?key\<lparr>stepIDs := pathArray path\<rparr>) (stepPaths [] (step p))
         else taskFromPipeline p providerByID = Inl ExceededMaximumNestingDepth"
    unfolding taskFromPipeline_step
    by (rule taskFromStep_paths) simp_all
  have iff: "taskFromPipeline p providerByID = Inl ExceededMaximumNestingDepth
        \<longleftrightarrow> (\<exists>path\<in>set (stepPaths [] (step p)). maxStepIDs < length path)"
  proof (cases "\<forall>path\<in>set (stepPaths [] (step p)). length path \<le> maxStepIDs")
    case True
    with main obtain t where "taskFromPipeline p providerByID = Inr t" by auto
    with True show ?thesis by (auto simp: not_less)
  next
    case False
    with main have "taskFromPipeline p providerByID = Inl ExceededMaximumNestingDepth" by simp
    with False show ?thesis by (auto simp: not_le)
  qed
  have ok: "(\<forall>path\<in>set (stepPaths [] (step p)). length path \<le> maxStepIDs)
          \<and> map stepIDs (taskKeys t) = map pathArray (stepPaths [] (step p))
          \<and> map (\<lambda>k. validPrefix (stepIDs k)) (taskKeys t) = stepPaths [] (step p)"
    if t: "taskFromPipeline p providerByID = Inr t" for t
  proof -
    have short: "\<forall>path\<in>set (stepPaths [] (step p)). length path \<le> maxStepIDs"
      using main t by (auto split: if_splits)
    with main t have keys:
      "taskKeys t = map (\<lambda>path. ?key\<lparr>stepIDs := pathArray path\<rparr>) (stepPaths [] (step p))"
      by auto
    have ids: "map stepIDs (taskKeys t) = map pathArray (stepPaths [] (step p))"
      unfolding keys by (simp add: comp_def)
    have "map (\<lambda>k. validPrefix (stepIDs k)) (taskKeys t)
        = map (\<lambda>path. validPrefix (pathArray path)) (stepPaths [] (step p))"
      unfolding keys by (simp add: comp_def)
    also have "\<dots> = map (\<lambda>path. path) (stepPaths [] (step p))"
      using short by (intro map_cong) (simp_all add: validPrefix_pathArray)
    finally show ?thesis using short ids by simp
  qed
  show ?thesis
    using iff ok by (simp add: maxStepIDs_def)
qed

text \<open>
  A pipeline of eleven nested levels, on which the projection panics, and one of two
  levels, on which it returns the four paths.
\<close>

theorem C8_taskFromPipeline_depth_cap_witness:
  "(\<exists>path\<in>set (stepPaths [] (step deepPipeline)). maxStepIDs < length path)
   \<and> taskFromPipeline deepPipeline Map.empty = Inl ExceededMaximumNestingDepth
   \<and> (\<exists>t. taskFromPipeline examplePipeline Map.empty = Inr t
        \<and> map (\<lambda>k. validPrefix (stepIDs k)) (taskKeys t)
            = [[''609256446''], [''609256446'', ''job1''], [''609256446'', ''job2''],
               [''609256446'', ''job3'']])"
proof -
  note deep = C8_taskFromPipeline_depth_cap [of deepPipeline Map.empty]
  note shallow = C8_taskFromPipeline_depth_cap [of examplePipeline Map.empty]
  have long: "\<exists>path\<in>set (stepPaths [] (step deepPipeline)). maxStepIDs < length path"
    by (simp add: deepPipeline_def maxStepIDs_def eval_nat_numeral)
  have panic: "taskFromPipeline deepPipeline Map.empty = Inl ExceededMaximumNestingDepth"
    using deep [THEN conjunct2, THEN conjunct1] long by simp
  have paths: "stepPaths [] (step examplePipeline)
      = [[''609256446''], [''609256446'', ''job1''], [''609256446'', ''job2''],
         [''609256446'', ''job3'']]"
    by (simp add: examplePipeline_def exampleSteps_def)
  have "\<not> (\<exists>path\<in>set (stepPaths [] (step examplePipeline)). maxStepIDs < length path)"
    unfolding paths by (simp add: maxStepIDs_def)
  with shallow [THEN conjunct2, THEN conjunct1]
  have "taskFromPipeline examplePipeline Map.empty \<noteq> Inl ExceededMaximumNestingDepth"
    by simp
  then obtain t where t: "taskFromPipeline examplePipeline Map.empty = Inr t"
    by (cases "taskFromPipeline examplePipeline Map.empty") (auto intro: panic.exhaust)
  have "map (\<lambda>k. validPrefix (stepIDs k)) (taskKeys t) = stepPaths [] (step examplePipeline)"
    using shallow [THEN conjunct2, THEN conjunct2, rule_format, OF t] by simp
  with t paths have "\<exists>t. taskFromPipeline examplePipeline Map.empty = Inr t
        \<and> map (\<lambda>k. validPrefix (stepIDs k)) (taskKeys t)
            = [[''609256446''], [''609256446'', ''job1''], [''609256446'', ''job2''],
               [''609256446'', ''job3'']]"
    by simp
  with long panic show ?thesis by blast
qed

section \<open>The log of a step\<close>

lemma HasSuffix_iff: "HasSuffix s suf \<longleftrightarrow> (\<exists>pre. s = pre @ suf)"
proof
  assume "HasSuffix s suf"
  then have "length suf \<le> length s" and d: "drop (length s - length suf) s = suf"
    by (simp_all add: HasSuffix_def)
  have "s = take (length s - length suf) s @ drop (length s - length suf) s" by simp
  with d show "\<exists>pre. s = pre @ suf" by metis
next
  assume "\<exists>pre. s = pre @ suf"
  then show "HasSuffix s suf" by (auto simp: HasSuffix_def)
qed

lemma HasSuffix_append_newline: "HasSuffix (log @ newline) newline"
  by (auto simp: HasSuffix_iff)

lemma HasSuffix_two:
  "HasSuffix (log @ newline) (newline @ newline) \<longleftrightarrow> HasSuffix log newline"
proof -
  have "(\<exists>pre. log @ newline = pre @ newline @ newline) \<longleftrightarrow> (\<exists>pre. log = pre @ newline)"
    by (metis append.assoc append_same_eq)
  then show ?thesis by (simp only: HasSuffix_iff)
qed

lemma HasSuffix_two_one: "HasSuffix log (newline @ newline) \<Longrightarrow> HasSuffix log newline"
  by (metis HasSuffix_iff append.assoc)

lemma HasSuffix_last: "HasSuffix s newline \<longleftrightarrow> s \<noteq> [] \<and> last s = CHR 0x0A"
proof
  assume "HasSuffix s newline"
  then show "s \<noteq> [] \<and> last s = CHR 0x0A"
    by (auto simp: HasSuffix_iff newline_def)
next
  assume "s \<noteq> [] \<and> last s = CHR 0x0A"
  then have "s = butlast s @ newline"
    by (simp add: newline_def) (metis append_butlast_last_id)
  then show "HasSuffix s newline" unfolding HasSuffix_iff by blast
qed

text \<open>
  Claim C9, amended. Every successful call to the cache's Log operation, whether the
  content was the step's cached log or was fetched from the provider, returns a string
  that ends in a newline character: the log as found when it already ends in a newline,
  and the log with one newline appended otherwise. Final newlines already there are
  kept, so the result ends in a single newline exactly when the log as found does not
  end in two.
\<close>

theorem C9_Log_ends_in_newline:
  "(Cache_Log c key = Inr s \<longrightarrow>
      HasSuffix s newline \<and> s \<noteq> [] \<and> last s = CHR 0x0A
      \<and> (\<exists>log. fetchLog c key = Inr log))
   \<and> (fetchLog c key = Inr log \<longrightarrow>
        Cache_Log c key = Inr (if HasSuffix log newline then log else log @ newline)
        \<and> (endsInSingleNewline (if HasSuffix log newline then log else log @ newline)
             \<longleftrightarrow> \<not> HasSuffix log (newline @ newline)))"
proof (intro conjI impI)
  assume r: "Cache_Log c key = Inr s"
  then obtain log where f: "fetchLog c key = Inr log"
    and s: "s = (if \<not> HasSuffix log newline then log @ newline else log)"
    by (auto simp: Cache_Log_def split: sum.splits)
  show suf: "HasSuffix s newline"
    unfolding s by (simp add: HasSuffix_append_newline)
  then show "s \<noteq> []" and "last s = CHR 0x0A"
    by (simp_all add: HasSuffix_last)
  show "\<exists>log. fetchLog c key = Inr log" using f by blast
next
  assume f: "fetchLog c key = Inr log"
  then show "Cache_Log c key = Inr (if HasSuffix log newline then log else log @ newline)"
    by (simp add: Cache_Log_def)
  show "endsInSingleNewline (if HasSuffix log newline then log else log @ newline)
             \<longleftrightarrow> \<not> HasSuffix log (newline @ newline)"
    using HasSuffix_two_one [of log]
    by (auto simp: endsInSingleNewline_def HasSuffix_append_newline HasSuffix_two)
qed

lemma logCache_fetch:
  "fetchLog logCache (jobKey ''job1'') = Inr (''ok'' @ newline @ newline)"
  "fetchLog logCache (jobKey ''job2'') = Inr ''done''"
  "fetchLog logCache (jobKey ''job3'') = Inr ''log of job3''"
  "fetchLog logCache (jobKey ''job4'') = Inr (''failed'' @ newline @ newline)"
  by (simp_all add: fetchLog_def jobKey_def pathArray_def maxStepIDs_def eval_nat_numeral
      validPrefix_def Cache_Step_def Cache_Pipeline_def logCache_def install_def Let_def
      NewCache_def logPipeline_def examplePipeline_def Key_def deref_def exampleProvider_def)

text \<open>A cached log and a fetched log, neither ending in a newline.\<close>

theorem C9_Log_ends_in_newline_witness:
  "fetchLog logCache (jobKey ''job2'') = Inr ''done''
   \<and> Cache_Log logCache (jobKey ''job2'') = Inr (''done'' @ newline)
   \<and> endsInSingleNewline (''done'' @ newline)
   \<and> fetchLog logCache (jobKey ''job3'') = Inr ''log of job3''
   \<and> Cache_Log logCache (jobKey ''job3'') = Inr (''log of job3'' @ newline)
   \<and> HasSuffix (''log of job3'' @ newline) newline"
proof -
  note cached = C9_Log_ends_in_newline [of logCache "jobKey ''job2''" "''done'' @ newline" "''done''"]
  note fetched = C9_Log_ends_in_newline
    [of logCache "jobKey ''job3''" "''log of job3'' @ newline" "''log of job3''"]
  have no: "\<not> HasSuffix ''done'' newline" "\<not> HasSuffix ''log of job3'' newline"
    "\<not> HasSuffix ''done'' (newline @ newline)"
    by (simp_all add: HasSuffix_def newline_def)
  have a: "Cache_Log logCache (jobKey ''job2'') = Inr (''done'' @ newline)"
    "endsInSingleNewline (''done'' @ newline)"
    using mp [OF cached [THEN conjunct2] logCache_fetch(2)] no by simp_all
  have b: "Cache_Log logCache (jobKey ''job3'') = Inr (''log of job3'' @ newline)"
    using mp [OF fetched [THEN conjunct2] logCache_fetch(3)] no by simp
  have c: "HasSuffix (''log of job3'' @ newline) newline"
    using mp [OF fetched [THEN conjunct1] b] by simp
  show ?thesis
    using a b c logCache_fetch by simp
qed

text \<open>
  Claim C9, as stated, fails: a cached log, or a log fetched from the provider, that
  ends in two newlines is returned as it is.
\<close>

theorem C9_two_newlines_counterexample:
  "Cache_Log logCache (jobKey ''job1'') = Inr (''ok'' @ [CHR 0x0A, CHR 0x0A])
   \<and> \<not> endsInSingleNewline (''ok'' @ [CHR 0x0A, CHR 0x0A])
   \<and> Cache_Log logCache (jobKey ''job4'') = Inr (''failed'' @ [CHR 0x0A, CHR 0x0A])
   \<and> \<not> endsInSingleNewline (''failed'' @ [CHR 0x0A, CHR 0x0A])"
  by (simp add: Cache_Log_def logCache_fetch(1,4) endsInSingleNewline_def HasSuffix_def newline_def)

section \<open>Broadcast of a pipeline URL\<close>

lemma receivePipelineError_below:
  "n + length (filter (\<lambda>e. e = ErrUnknownPipelineURL) es) < N \<Longrightarrow>
   foldl (receivePipelineError N) (n, err) es =
     (n + length (filter (\<lambda>e. e = ErrUnknownPipelineURL) es),
      case err of Some e \<Rightarrow> Some e | None \<Rightarrow> find (\<lambda>e. e \<noteq> ErrUnknownPipelineURL) es)"
proof (induction es arbitrary: n err)
  case Nil
  then show ?case by (simp split: option.splits)
next
  case (Cons e es)
  show ?case
  proof (cases "e = ErrUnknownPipelineURL")
    case True
    with Cons.prems have "Suc n + length (filter (\<lambda>e. e = ErrUnknownPipelineURL) es) < N"
      by simp
    from Cons.IH [OF this, of err] True Cons.prems show ?thesis
      by (simp add: receivePipelineError_def split: option.splits)
  next
    case False
    with Cons.prems have "n + length (filter (\<lambda>e. e = ErrUnknownPipelineURL) es) < N"
      by simp
    from Cons.IH [OF this, of "if err = None then Some e else err"] False show ?thesis
      by (simp add: receivePipelineError_def split: option.splits)
  qed
qed

lemma receivePipelineError_all_unknown:
  "es \<noteq> [] \<Longrightarrow> \<forall>e\<in>set es. e = ErrUnknownPipelineURL \<Longrightarrow> n + length es = N \<Longrightarrow>
   snd (foldl (receivePipelineError N) (n, None) es) = Some ErrUnknownPipelineURL"
proof (induction es arbitrary: n)
  case Nil
  then show ?case by simp
next
  case (Cons e es)
  then have e: "e = ErrUnknownPipelineURL" by simp
  show ?case
  proof (cases "es = []")
    case True
    with Cons.prems e show ?thesis by (simp add: receivePipelineError_def)
  next
    case False
    have "snd (foldl (receivePipelineError N) (Suc n, None) es) = Some ErrUnknownPipelineURL"
      using Cons.prems by (intro Cons.IH [OF False]) simp_all
    moreover have "receivePipelineError N (n, None) e = (Suc n, None)"
      using Cons.prems e False by (cases es) (simp_all add: receivePipelineError_def)
    ultimately show ?thesis by simp
  qed
qed

lemma sent_unknown_count:
  "length (filter (\<lambda>e. e = ErrUnknownPipelineURL) (concat (map sentPipelineError results)))
     = length (filter (\<lambda>r. snd r = Some ErrUnknownPipelineURL) results)"
  by (induction results) (auto simp: sentPipelineError_def split: option.splits)

lemma sent_all_unknown:
  "\<forall>r\<in>set results. snd r = Some ErrUnknownPipelineURL \<Longrightarrow>
   concat (map sentPipelineError results) = replicate (length results) ErrUnknownPipelineURL"
  by (induction results) (auto simp: sentPipelineError_def)

lemma sent_none_or_unknown:
  "\<forall>r\<in>set results. snd r = None \<or> snd r = Some ErrUnknownPipelineURL \<Longrightarrow>
   find (\<lambda>e. e \<noteq> ErrUnknownPipelineURL) (concat (map sentPipelineError results)) = None"
  by (induction results) (auto simp: sentPipelineError_def)

lemma find_not_unknown:
  "find (\<lambda>e. e \<noteq> ErrUnknownPipelineURL) es \<noteq> Some ErrUnknownPipelineURL"
  by (induction es) auto

lemma broadcastMonitorPipeline_not_all:
  assumes "r \<in> set results" and "snd r \<noteq> Some ErrUnknownPipelineURL"
  shows "broadcastMonitorPipeline results =
     find (\<lambda>e. e \<noteq> ErrUnknownPipelineURL) (concat (map sentPipelineError results))"
proof -
  have "length (filter (\<lambda>r. snd r = Some ErrUnknownPipelineURL) results) < length results"
    using assms by (intro length_filter_less [of r]) simp_all
  then have "0 + length (filter (\<lambda>e. e = ErrUnknownPipelineURL)
      (concat (map sentPipelineError results))) < length results"
    by (simp add: sent_unknown_count)
  from receivePipelineError_below [OF this, of None] show ?thesis
    by (simp add: broadcastMonitorPipeline_def)
qed

lemma broadcastMonitorPipeline_unknown_iff:
  "broadcastMonitorPipeline results = Some ErrUnknownPipelineURL
   \<longleftrightarrow> results \<noteq> [] \<and> (\<forall>r\<in>set results. snd r = Some ErrUnknownPipelineURL)"
proof (cases "\<forall>r\<in>set results. snd r = Some ErrUnknownPipelineURL")
  case True
  show ?thesis
  proof (cases "results = []")
    case True
    then show ?thesis by (simp add: broadcastMonitorPipeline_def)
  next
    case False
    have "snd (foldl (receivePipelineError (length results)) (0, None)
        (replicate (length results) ErrUnknownPipelineURL)) = Some ErrUnknownPipelineURL"
      using False by (intro receivePipelineError_all_unknown) simp_all
    with True False show ?thesis
      by (simp add: broadcastMonitorPipeline_def sent_all_unknown)
  qed
next
  case False
  then obtain r where "r \<in> set results" "snd r \<noteq> Some ErrUnknownPipelineURL" by blast
  from broadcastMonitorPipeline_not_all [OF this] False show ?thesis
    by (simp add: find_not_unknown)
qed

lemma broadcastMonitorPipeline_adopted:
  assumes "\<exists>r\<in>set results. snd r = None"
    and "\<forall>r\<in>set results. snd r = None \<or> snd r = Some ErrUnknownPipelineURL"
  shows "broadcastMonitorPipeline results = None"
proof -
  from assms(1) obtain r where "r \<in> set results" "snd r \<noteq> Some ErrUnknownPipelineURL" by force
  from broadcastMonitorPipeline_not_all [OF this] sent_none_or_unknown [OF assms(2)]
  show ?thesis by simp
qed

text \<open>
  With at least one CI provider the broadcast returns \<^verbatim>\<open>ErrUnknownPipelineURL\<close> exactly
  when every provider returned it (\<open>broadcastMonitorPipeline_unknown_iff\<close>), and it
  succeeds when some provider adopted the URL and none failed
  (\<open>broadcastMonitorPipeline_adopted\<close>).

  Claim C4 at a cache with no CI provider: every provider returned
  \<^verbatim>\<open>ErrUnknownPipelineURL\<close>, there being none, and none is able to handle the URL; the
  loop over the channel never runs and the broadcast returns \<^verbatim>\<open>nil\<close>, where the claim
  and the comment above the function ("If no provider is able to handle the specified
  URL, ErrUnknownPipelineURL is returned") give \<^verbatim>\<open>ErrUnknownPipelineURL\<close>.
\<close>

theorem C4_no_provider_returns_success:
  "broadcastMonitorPipeline [] = None"
  by (simp add: broadcastMonitorPipeline_def)

section \<open>Broadcast of the ref statuses\<close>

lemma receiveRefStatus_canceled:
  "foldl (receiveRefStatus N) (n, True, err) es = (n, True, err)"
  by (induction es) (simp_all add: receiveRefStatus_def)

lemma receiveRefStatus_below:
  "\<forall>e\<in>set es. unknownRepoOrRef e \<Longrightarrow> n + length es < N \<Longrightarrow>
   \<exists>err'. foldl (receiveRefStatus N) (n, False, err) es = (n + length es, False, err')"
proof (induction es arbitrary: n err)
  case Nil
  then show ?case by simp
next
  case (Cons e es)
  then have e: "unknownRepoOrRef e" and rest: "\<forall>e\<in>set es. unknownRepoOrRef e"
    and lt: "Suc n + length es < N" by simp_all
  from e lt obtain err1 where "receiveRefStatus N (n, False, err) e = (Suc n, False, err1)"
    by (auto simp: receiveRefStatus_def unknownRepoOrRef_def)
  with Cons.IH [OF rest lt, of err1] show ?case by simp
qed

lemma receiveRefStatus_last:
  "es \<noteq> [] \<Longrightarrow> \<forall>e\<in>set es. unknownRepoOrRef e \<Longrightarrow> n + length es = N \<Longrightarrow>
   snd (snd (foldl (receiveRefStatus N) (n, False, err) es)) = last es"
proof (induction es arbitrary: n err)
  case Nil
  then show ?case by simp
next
  case (Cons e es)
  then have e: "unknownRepoOrRef e" by simp
  show ?case
  proof (cases "es = []")
    case True
    with Cons.prems e show ?thesis
      by (auto simp: receiveRefStatus_def unknownRepoOrRef_def)
  next
    case False
    from e Cons.prems False obtain err1 where
      "receiveRefStatus N (n, False, err) e = (Suc n, False, err1)"
      by (cases es) (auto simp: receiveRefStatus_def unknownRepoOrRef_def)
    moreover have "snd (snd (foldl (receiveRefStatus N) (Suc n, False, err1) es)) = last es"
      using Cons.prems by (intro Cons.IH [OF False]) simp_all
    ultimately show ?thesis using False by simp
  qed
qed

lemma receiveRefStatus_other:
  assumes "\<forall>e\<in>set pre. unknownRepoOrRef e" and "\<not> unknownRepoOrRef e"
    and "length pre < N"
  shows "snd (snd (foldl (receiveRefStatus N) (0, False, err) (pre @ e # post))) = e"
proof -
  from receiveRefStatus_below [OF assms(1), of 0 N err] assms(3)
  obtain err' where "foldl (receiveRefStatus N) (0, False, err) pre = (length pre, False, err')"
    by auto
  moreover have "receiveRefStatus N (length pre, False, err') e = (N, True, e)"
    using assms(2) by (simp add: receiveRefStatus_def unknownRepoOrRef_def)
  ultimately show ?thesis by (simp add: receiveRefStatus_canceled)
qed

lemma consolidateRefStatus_all_unknown:
  assumes "results \<noteq> []" and "\<forall>e\<in>set results. unknownRepoOrRef e"
  shows "consolidateRefStatus err0 results = last results"
  unfolding consolidateRefStatus_def
  using assms by (intro receiveRefStatus_last) simp_all

lemma consolidateRefStatus_other:
  assumes "\<not> (\<forall>e\<in>set results. unknownRepoOrRef e)"
  shows "\<not> unknownRepoOrRef (consolidateRefStatus err0 results)"
proof -
  from assms obtain pre e post where split: "results = pre @ e # post"
    and pre: "\<forall>x\<in>set pre. unknownRepoOrRef x" and e: "\<not> unknownRepoOrRef e"
    using split_list_first_prop [of results "\<lambda>x. \<not> unknownRepoOrRef x"] by auto
  have "consolidateRefStatus err0 results = e"
    unfolding consolidateRefStatus_def split
    by (rule receiveRefStatus_other [OF pre e]) simp
  with e show ?thesis by simp
qed

lemma broadcastMonitorRefStatus_only_if_all:
  assumes "results \<noteq> []" and "unknownRepoOrRef (broadcastMonitorRefStatus originErr results)"
    and "originErr = None \<or> unknownRepoOrRef originErr"
  shows "\<forall>e\<in>set results. unknownRepoOrRef e"
proof (rule ccontr)
  assume "\<not> (\<forall>e\<in>set results. unknownRepoOrRef e)"
  then have "\<not> unknownRepoOrRef (consolidateRefStatus originErr results)"
    by (rule consolidateRefStatus_other)
  moreover have "broadcastMonitorRefStatus originErr results = consolidateRefStatus originErr results"
    using assms(3) by (auto simp: broadcastMonitorRefStatus_def unknownRepoOrRef_def)
  ultimately show False using assms(2) by simp
qed

text \<open>
  Either of the two errors is returned only when every source provider returned one of
  them (\<open>broadcastMonitorRefStatus_only_if_all\<close>), and the result is then the one that
  arrived last (\<open>consolidateRefStatus_all_unknown\<close>).

  Claim C5 at two source providers, one returning \<^verbatim>\<open>ErrUnknownGitReference\<close> and the
  other \<^verbatim>\<open>ErrUnknownRepositoryURL\<close>: when the latter arrives last it is the result,
  although a provider returned \<^verbatim>\<open>ErrUnknownGitReference\<close>, whether the repository
  argument was a local path (first line) or not (second line); in the other order of
  arrival the result is \<^verbatim>\<open>ErrUnknownGitReference\<close>. The assignment \<^verbatim>\<open>err = e\<close> of line 713
  overwrites the error that lines 700-704 selected.
\<close>

theorem C5_last_result_wins:
  "broadcastMonitorRefStatus None [Some ErrUnknownGitReference, Some ErrUnknownRepositoryURL]
     = Some ErrUnknownRepositoryURL
   \<and> broadcastMonitorRefStatus (Some ErrUnknownRepositoryURL)
         [Some ErrUnknownGitReference, Some ErrUnknownRepositoryURL]
     = Some ErrUnknownRepositoryURL
   \<and> broadcastMonitorRefStatus None [Some ErrUnknownRepositoryURL, Some ErrUnknownGitReference]
     = Some ErrUnknownGitReference"
  by (simp add: broadcastMonitorRefStatus_def consolidateRefStatus_def receiveRefStatus_def)

end
